theory Spec2Isabelle
  imports Main "HOL-Library.AList" "HOL-Library.Char_ord" "HOL-Library.List_Lexorder"
begin

section \<open>Data model of the live update engine (www/common.ts)\<close>

text \<open>
  The embedding follows \<^verbatim>\<open>class IonicDeployImpl\<close>. The preference blob
  \<^verbatim>\<open>_savedPreferences\<close> is mutated in place by the source; here every operation
  takes the preferences and returns the updated ones, also when it throws (the mutation
  done before the throw stays). Every operation also returns the list of calls it made
  to the outside world (native bridge, network, webview), in program order.

  A rejected promise or a thrown exception is the value \<open>Inl e\<close>; a normal return is
  \<open>Inr v\<close>. The functions keep the names of the methods; the leading underscore of a
  private method is dropped (\<^verbatim>\<open>_diffManifests\<close> is \<open>diffManifests\<close>).
\<close>

datatype error = Error string

datatype UpdateState = Available | Pending | Ready

record IAvailableUpdate =
  binaryVersionCode :: string
  binaryVersionName :: string
  channel :: string
  state :: UpdateState
  lastUsed :: string
  url :: string
  versionId :: string
  buildId :: string

text \<open>
  \<^verbatim>\<open>updates\<close> is a JavaScript object used as a dictionary from versionId to record.
  Its keys are enumerated in insertion order (\<^verbatim>\<open>Object.keys\<close>), so it is an
  association list: assignment to a present key keeps its place, assignment to a new key
  appends, \<^verbatim>\<open>delete\<close> removes. (Version identifiers are not array indices, which
  JavaScript would enumerate first, nor names inherited from \<^verbatim>\<open>Object.prototype\<close>.)
  An optional field (\<^verbatim>\<open>currentVersionId?\<close>) is an \<open>option\<close>;
  \<^verbatim>\<open>delete prefs.x\<close> sets it to \<open>None\<close>.

  \<^verbatim>\<open>extractUpdate\<close> stores in \<^verbatim>\<open>updates\<close> the very object that is
  \<^verbatim>\<open>prefs.availableUpdate\<close>. The model stores a copy: the object is in state
  \<open>Ready\<close> from then on, and the two assignments to \<^verbatim>\<open>state\<close> in the code happen
  only in states \<open>Available\<close> and \<open>Pending\<close>, so a shared record is never written.
\<close>

record ISavedPreferences =
  appId :: string
  host :: string
  prefs_channel :: string
  prefs_binaryVersionName :: string
  prefs_binaryVersionCode :: string
  currentVersionId :: "string option"
  currentBuildId :: "string option"
  updateMethod :: string
  maxVersions :: int
  minBackgroundDuration :: int
  disabled :: bool
  updates :: "(string \<times> IAvailableUpdate) list"
  availableUpdate :: "IAvailableUpdate option"

record ManifestFileEntry =
  href :: string
  size :: int

record FetchManifestResp =
  fileBaseUrl :: string
  manifestJson :: "ManifestFileEntry list"

record CheckForUpdateResponse =
  available :: bool
  resp_url :: "string option"
  snapshot :: "string option"
  build :: "string option"

text \<open>
  The answer of the check-device request as the code reads it: the HTTP status and the
  \<^verbatim>\<open>data\<close> member of the JSON body (\<open>None\<close> when the body is not JSON or has no
  such member, in which case reading it throws).
\<close>

record Response =
  status :: nat
  json_data :: "CheckForUpdateResponse option"

subsection \<open>The outside world\<close>

text \<open>
  Everything the class consumes but does not implement: the native bridge
  (\<^verbatim>\<open>cordova.exec\<close> behind \<^verbatim>\<open>FileManager\<close> and \<^verbatim>\<open>_savePrefs\<close>), \<^verbatim>\<open>fetch\<close>, the
  webview (\<^verbatim>\<open>Ionic.WebView\<close>), \<^verbatim>\<open>navigator\<close>, the clock, and the builtins
  \<^verbatim>\<open>URL\<close> and \<^verbatim>\<open>JSON.stringify\<close>. Each is a field that says how the call answers;
  a call that can reject answers with an \<open>error\<close>.
\<close>

record Env =
  dataDirectory :: string
  WEBVIEW_SERVER_URL :: string
  Capacitor_defined :: bool
  navigator_onLine :: bool
  Date_toISOString :: string
  URL_pathname :: "string \<Rightarrow> string"
  URL_resolve :: "string \<Rightarrow> string \<Rightarrow> string"
  JSON_stringify :: "ManifestFileEntry \<Rightarrow> string"
  fetch_check_device :: "error + Response"
  fetch_json :: "string \<Rightarrow> error + FetchManifestResp"
  setPreferences :: "ISavedPreferences \<Rightarrow> error option"
  getServerBasePath :: "error + string"
  FileManager_remove :: "string \<Rightarrow> error option"
  FileManager_copyTo :: "string \<Rightarrow> string \<Rightarrow> string \<Rightarrow> error option"
  FileManager_copyFiles :: "string \<Rightarrow> string \<Rightarrow> error option"
  FileManager_downloadAndWriteFile :: "string \<Rightarrow> string \<Rightarrow> error option"
  FileManager_getDirectoryFiles :: "string \<Rightarrow> error + string list"

text \<open>
  The calls made to the outside world. \<open>Progress d s\<close> is the call
  \<^verbatim>\<open>progress(Number(((d / s) * 100).toFixed(2)))\<close>: the two operands are recorded, not
  the floating-point percentage. \<open>AwaitAll n\<close> is \<^verbatim>\<open>await Promise.all(downloads)\<close>
  on \<open>n\<close> started transfers; \<open>TimerDiff count numberBatches\<close> is the log line of a
  finished batch.
\<close>

datatype effect =
    SavePrefs ISavedPreferences
  | Fetch string
  | GetDirectoryFiles string
  | CopyTo string string string
  | CopyFiles string string
  | DownloadFile string string
  | AwaitAll nat
  | TimerDiff nat nat
  | Sleep
  | Remove string
  | GetServerBasePath
  | SetServerBasePath string
  | PersistServerBasePath
  | FireReady
  | Progress int int
  | Progress100
  | ConsoleLog string
  | ConsoleError string

subsection \<open>Strings and paths\<close>

text \<open>\<^verbatim>\<open>s.slice(0, length p) === p\<close>.\<close>

definition starts_with :: "string \<Rightarrow> string \<Rightarrow> bool" where
  "starts_with s p = (take (length p) s = p)"

text \<open>\<^verbatim>\<open>String.prototype.includes\<close>: the needle occurs as a contiguous substring.\<close>

fun str_includes :: "string \<Rightarrow> string \<Rightarrow> bool" where
  "str_includes [] needle = (needle = [])"
| "str_includes (c # cs) needle = (starts_with (c # cs) needle \<or> str_includes cs needle)"

text \<open>
  \<^verbatim>\<open>String.prototype.replace\<close> with a string pattern: the first occurrence only.
  (The \<^verbatim>\<open>$\<close> escapes of the replacement string are not interpreted here; version
  identifiers do not contain that character.)
\<close>

fun replace_first :: "string \<Rightarrow> string \<Rightarrow> string \<Rightarrow> string" where
  "replace_first [] pat rep = (if pat = [] then rep else [])"
| "replace_first (c # cs) pat rep =
     (if starts_with (c # cs) pat then rep @ drop (length pat) (c # cs)
      else c # replace_first cs pat rep)"

text \<open>\<^verbatim>\<open>s.split('/')[s.split('/').length - 1]\<close>: what follows the last slash.\<close>

definition last_segment :: "string \<Rightarrow> string" where
  "last_segment s = rev (takeWhile (\<lambda>c. c \<noteq> CHR ''/'') (rev s))"

text \<open>\<^verbatim>\<open>Path.join\<close>: the loop body, then the loop over the remaining arguments.\<close>

definition join_step :: "string \<Rightarrow> string \<Rightarrow> string" where
  "join_step fullPath path =
     (let fullPath1 = (if fullPath \<noteq> [] \<and> last fullPath \<noteq> CHR ''/''
                       then fullPath @ ''/'' else fullPath)
      in if take 1 path \<noteq> ''/'' then fullPath1 @ path else fullPath1 @ drop 1 path)"

definition Path_join :: "string list \<Rightarrow> string" where
  "Path_join paths = (case paths of [] \<Rightarrow> [] | p # ps \<Rightarrow> foldl join_step p ps)"

definition SNAPSHOT_CACHE :: string where
  "SNAPSHOT_CACHE = ''ionic_built_snapshots''"

definition MANIFEST_FILE :: string where
  "MANIFEST_FILE = ''pro-manifest.json''"

definition getSnapshotCacheDir :: "Env \<Rightarrow> string \<Rightarrow> string" where
  "getSnapshotCacheDir env vid =
     URL_pathname env (Path_join [dataDirectory env, SNAPSHOT_CACHE, vid])"

definition getBundledAppDir :: "Env \<Rightarrow> string" where
  "getBundledAppDir env = (if Capacitor_defined env then ''public'' else ''www'')"

text \<open>JavaScript truthiness of an optional string: present and not empty.\<close>

definition truthy :: "string option \<Rightarrow> bool" where
  "truthy s = (case s of None \<Rightarrow> False | Some v \<Rightarrow> v \<noteq> [])"

text \<open>
  \<^verbatim>\<open>Array.prototype.slice(start)\<close> with one argument: a negative start counts from
  the end.
\<close>

definition slice_from :: "int \<Rightarrow> 'a list \<Rightarrow> 'a list" where
  "slice_from start xs =
     (if start < 0 then drop (nat (max (int (length xs) + start) 0)) xs
      else drop (nat start) xs)"

section \<open>Version lifecycle\<close>

type_synonym 'a outcome = "(error + 'a) \<times> ISavedPreferences \<times> effect list"

text \<open>
  \<^verbatim>\<open>_savePrefs(prefs)\<close> hands the preferences to the native side: it is the call
  \<open>setPreferences env prefs\<close>, which answers \<open>None\<close> when the promise resolves and
  \<open>Some e\<close> when it rejects, and it leaves the effect \<open>SavePrefs prefs\<close>.
\<close>

definition isRunningVersion :: "Env \<Rightarrow> string \<Rightarrow> error + bool" where
  "isRunningVersion env vid =
     (case getServerBasePath env of
        Inl e \<Rightarrow> Inl e
      | Inr currentPath \<Rightarrow> Inr (str_includes currentPath vid))"

definition isUpdateForCurrentBinary :: "ISavedPreferences \<Rightarrow> IAvailableUpdate \<Rightarrow> bool" where
  "isUpdateForCurrentBinary prefs update =
     (binaryVersionName update = prefs_binaryVersionName prefs \<and>
      binaryVersionCode update = prefs_binaryVersionCode prefs)"

definition isUpdateCurrentlyInstalled :: "ISavedPreferences \<Rightarrow> IAvailableUpdate \<Rightarrow> bool" where
  "isUpdateCurrentlyInstalled prefs update = (currentVersionId prefs = Some (versionId update))"

definition getStoredUpdates :: "ISavedPreferences \<Rightarrow> IAvailableUpdate list" where
  "getStoredUpdates prefs = map snd (updates prefs)"

text \<open>
  \<^verbatim>\<open>_cleanSnapshotDir\<close>: the removal is attempted and a failure is caught and logged, so
  the function never throws.
\<close>

definition cleanSnapshotDir :: "Env \<Rightarrow> string \<Rightarrow> effect list" where
  "cleanSnapshotDir env vid =
     (let snapshotDir = getSnapshotCacheDir env vid
      in case FileManager_remove env snapshotDir of
           None \<Rightarrow> [Remove snapshotDir]
         | Some e \<Rightarrow> [Remove snapshotDir,
                       ConsoleLog ''No directory found for snapshot no need to delete''])"

definition deleteVersionById :: "Env \<Rightarrow> string \<Rightarrow> ISavedPreferences \<Rightarrow> bool outcome" where
  "deleteVersionById env vid prefs =
     (let prefs1 = prefs\<lparr>updates := AList.delete vid (updates prefs)\<rparr>
      in case setPreferences env prefs1 of
           Some e \<Rightarrow> (Inl e, prefs1, [SavePrefs prefs1])
         | None \<Rightarrow> (Inr True, prefs1, SavePrefs prefs1 # cleanSnapshotDir env vid))"

text \<open>
  \<^verbatim>\<open>cleanupStaleVersions\<close>: the loop runs over the array built by
  \<^verbatim>\<open>getStoredUpdates\<close> before the first deletion. The test
  \<^verbatim>\<open>!isUpdateForCurrentBinary(update) && !(await _isRunningVersion(..))\<close> short-circuits:
  the webview is asked only for an update of another binary.
\<close>

fun cleanupStale_loop :: "Env \<Rightarrow> IAvailableUpdate list \<Rightarrow> ISavedPreferences \<Rightarrow> unit outcome" where
  "cleanupStale_loop env [] prefs = (Inr (), prefs, [])"
| "cleanupStale_loop env (update # rest) prefs =
     (if isUpdateForCurrentBinary prefs update then cleanupStale_loop env rest prefs
      else case isRunningVersion env (versionId update) of
        Inl e \<Rightarrow> (Inl e, prefs, [GetServerBasePath])
      | Inr True \<Rightarrow>
          (case cleanupStale_loop env rest prefs of
             (r, prefs', evs) \<Rightarrow> (r, prefs', GetServerBasePath # evs))
      | Inr False \<Rightarrow>
          (let prefs1 = (if isUpdateCurrentlyInstalled prefs update
                         then prefs\<lparr>currentVersionId := None\<rparr> else prefs)
           in case deleteVersionById env (versionId update) prefs1 of
                (Inl e, prefs2, evs) \<Rightarrow> (Inl e, prefs2, GetServerBasePath # evs)
              | (Inr _, prefs2, evs) \<Rightarrow>
                  (case cleanupStale_loop env rest prefs2 of
                     (r, prefs', evs') \<Rightarrow> (r, prefs', GetServerBasePath # evs @ evs'))))"

definition cleanupStaleVersions :: "Env \<Rightarrow> ISavedPreferences \<Rightarrow> unit outcome" where
  "cleanupStaleVersions env prefs = cleanupStale_loop env (getStoredUpdates prefs) prefs"

text \<open>The loop \<^verbatim>\<open>for (const update of updatesToDelete) await deleteVersionById(..)\<close>.\<close>

fun delete_loop :: "Env \<Rightarrow> IAvailableUpdate list \<Rightarrow> ISavedPreferences \<Rightarrow> unit outcome" where
  "delete_loop env [] prefs = (Inr (), prefs, [])"
| "delete_loop env (update # rest) prefs =
     (case deleteVersionById env (versionId update) prefs of
        (Inl e, prefs1, evs) \<Rightarrow> (Inl e, prefs1, evs)
      | (Inr _, prefs1, evs) \<Rightarrow>
          (case delete_loop env rest prefs1 of
             (r, prefs', evs') \<Rightarrow> (r, prefs', evs @ evs')))"

text \<open>
  \<^verbatim>\<open>lastUsed\<close> is the string \<^verbatim>\<open>new Date().toISOString()\<close>, of the form
  \<^verbatim>\<open>YYYY-MM-DDTHH:mm:ss.sssZ\<close>, which \<open>isISOString\<close> recognises (\<open>d\<close> in the
  pattern stands for a digit). On such strings \<^verbatim>\<open>localeCompare\<close> is the lexicographic
  order of the characters, which is the order of \<open>string\<close> here; on other strings the
  two orders may differ. \<^verbatim>\<open>Array.prototype.sort\<close> is stable, as \<open>sort_key\<close> is.
\<close>

definition isISOString :: "string \<Rightarrow> bool" where
  "isISOString s =
     list_all2 (\<lambda>c p. if p = CHR ''d'' then c \<in> set ''0123456789'' else c = p)
       s ''dddd-dd-ddTdd:dd:dd.dddZ''"

definition updatesToDelete :: "ISavedPreferences \<Rightarrow> IAvailableUpdate list" where
  "updatesToDelete prefs =
     slice_from (maxVersions prefs)
       (rev (sort_key lastUsed
          (filter (\<lambda>a. \<not> isUpdateCurrentlyInstalled prefs a) (getStoredUpdates prefs))))"

definition cleanupVersions :: "Env \<Rightarrow> ISavedPreferences \<Rightarrow> unit outcome" where
  "cleanupVersions env prefs =
     (case cleanupStaleVersions env prefs of
        (Inl e, prefs1, evs) \<Rightarrow> (Inl e, prefs1, evs)
      | (Inr _, prefs1, evs) \<Rightarrow>
          (case delete_loop env (updatesToDelete prefs1) prefs1 of
             (r, prefs2, evs') \<Rightarrow> (r, prefs2, evs @ evs')))"

definition extractUpdate :: "Env \<Rightarrow> bool \<Rightarrow> ISavedPreferences \<Rightarrow> bool outcome" where
  "extractUpdate env progress prefs =
     (case availableUpdate prefs of
        None \<Rightarrow> (Inr False, prefs, [])
      | Some au \<Rightarrow>
          if state au \<noteq> Pending then (Inr False, prefs, [])
          else
            (let au1 = au\<lparr>state := Ready\<rparr>;
                 prefs1 = prefs\<lparr>availableUpdate := Some au1,
                                updates := AList.update (versionId au1) au1 (updates prefs)\<rparr>;
                 evs = (if progress then [Progress100] else [])
             in case setPreferences env prefs1 of
                  Some e \<Rightarrow> (Inl e, prefs1, evs @ [SavePrefs prefs1])
                | None \<Rightarrow> (Inr True, prefs1, evs @ [SavePrefs prefs1])))"

text \<open>
  \<^verbatim>\<open>reloadApp\<close>, first half: \<^verbatim>\<open>// Save the current update if it's ready\<close>.
\<close>

definition commitReady :: "Env \<Rightarrow> ISavedPreferences \<Rightarrow> unit outcome" where
  "commitReady env prefs =
     (case availableUpdate prefs of
        None \<Rightarrow> (Inr (), prefs, [])
      | Some au \<Rightarrow>
          if state au = Ready then
            (let prefs1 = prefs\<lparr>currentVersionId := Some (versionId au),
                                currentBuildId := Some (buildId au),
                                availableUpdate := None\<rparr>
             in case setPreferences env prefs1 of
                  Some e \<Rightarrow> (Inl e, prefs1, [SavePrefs prefs1])
                | None \<Rightarrow> (Inr (), prefs1, [SavePrefs prefs1]))
          else (Inr (), prefs, []))"

text \<open>
  \<^verbatim>\<open>reloadApp\<close>, second half: \<^verbatim>\<open>// Is there a non-binary version deployed?\<close>.
  \<^verbatim>\<open>currentVersionId in prefs.updates\<close> is the test that the key is present.
\<close>

definition redirectToCurrent :: "Env \<Rightarrow> ISavedPreferences \<Rightarrow> bool outcome" where
  "redirectToCurrent env prefs =
     (if truthy (currentVersionId prefs) then
        (let cur = the (currentVersionId prefs)
         in case isRunningVersion env cur of
              Inl e \<Rightarrow> (Inl e, prefs, [GetServerBasePath])
            | Inr True \<Rightarrow>
                (case setPreferences env prefs of
                   Some e \<Rightarrow> (Inl e, prefs, [GetServerBasePath, SavePrefs prefs])
                 | None \<Rightarrow>
                     (case cleanupVersions env prefs of
                        (Inl e, prefs1, evs) \<Rightarrow>
                          (Inl e, prefs1,
                           [GetServerBasePath, SavePrefs prefs, FireReady, PersistServerBasePath] @ evs)
                      | (Inr _, prefs1, evs) \<Rightarrow>
                          (Inr False, prefs1,
                           [GetServerBasePath, SavePrefs prefs, FireReady, PersistServerBasePath] @ evs)))
            | Inr False \<Rightarrow>
                if cur \<notin> fst ` set (updates prefs) then
                  (Inr False, prefs,
                   [GetServerBasePath, ConsoleError (''Missing version '' @ cur), FireReady])
                else
                  (Inr True, prefs,
                   [GetServerBasePath, SetServerBasePath (getSnapshotCacheDir env cur)]))
      else (Inr False, prefs, [FireReady]))"

definition reloadApp :: "Env \<Rightarrow> ISavedPreferences \<Rightarrow> bool outcome" where
  "reloadApp env prefs =
     (case commitReady env prefs of
        (Inl e, prefs1, evs) \<Rightarrow> (Inl e, prefs1, evs)
      | (Inr _, prefs1, evs) \<Rightarrow>
          (case redirectToCurrent env prefs1 of
             (r, prefs2, evs') \<Rightarrow> (r, prefs2, evs @ evs')))"

section \<open>Manifest diffing\<close>

text \<open>
  \<^verbatim>\<open>_recursiveFilesInPath\<close> walks the directory tree through the native listing. Nothing
  in the code bounds the walk (a listing may name a folder that lists itself again), so
  the model takes fuel: \<open>None\<close> means that the walk has not returned within the fuel.
  \<open>visit_folders\<close> is the loop \<^verbatim>\<open>for (let i = 0; i < folders.length; i++)\<close>, which
  appends the files of each folder to \<^verbatim>\<open>files\<close>.
\<close>

text \<open>The first lines of the function: the directory to list and the prefix of its files.\<close>

definition walk_fullPath :: "string \<Rightarrow> string \<Rightarrow> string \<Rightarrow> string" where
  "walk_fullPath filePath suffix folderName =
     (let fullPath = (if suffix \<noteq> [] then filePath @ suffix else filePath)
      in if folderName \<noteq> [] then fullPath @ ''/'' @ folderName else fullPath)"

definition walk_filePrefix :: "string \<Rightarrow> string \<Rightarrow> string" where
  "walk_filePrefix suffix folderName =
     (let filePrefix = (if suffix \<noteq> [] then drop 1 suffix else [])
      in if folderName \<noteq> []
         then (if filePrefix \<noteq> [] then filePrefix @ ''/'' @ folderName else filePrefix @ folderName)
         else filePrefix)"

text \<open>The \<^verbatim>\<open>forEach\<close> that builds \<^verbatim>\<open>files\<close>, and the \<^verbatim>\<open>filter\<close> that finds the folders
  (the names without a dot).\<close>

definition walk_files :: "string \<Rightarrow> string list \<Rightarrow> string list" where
  "walk_files filePrefix filesNames =
     map (\<lambda>fileName. if filePrefix = [] then fileName else filePrefix @ ''/'' @ fileName) filesNames"

definition walk_folders :: "string list \<Rightarrow> string list" where
  "walk_folders files = filter (\<lambda>fileName. \<not> str_includes fileName ''.'') files"

definition with_effect :: "effect \<Rightarrow> ('a \<times> effect list) option \<Rightarrow> ('a \<times> effect list) option" where
  "with_effect ev res = (case res of None \<Rightarrow> None | Some (r, evs) \<Rightarrow> Some (r, ev # evs))"

fun recursiveFilesInPath ::
      "nat \<Rightarrow> Env \<Rightarrow> string \<Rightarrow> string \<Rightarrow> string \<Rightarrow> ((error + string list) \<times> effect list) option"
  and visit_folders ::
      "nat \<Rightarrow> Env \<Rightarrow> string \<Rightarrow> string \<Rightarrow> string list \<Rightarrow> string list
         \<Rightarrow> ((error + string list) \<times> effect list) option"
where
  "recursiveFilesInPath 0 env filePath suffix folderName = None"
| "recursiveFilesInPath (Suc n) env filePath suffix folderName =
     (case FileManager_getDirectoryFiles env (walk_fullPath filePath suffix folderName) of
        Inl e \<Rightarrow> Some (Inl e, [GetDirectoryFiles (walk_fullPath filePath suffix folderName)])
      | Inr filesNames \<Rightarrow>
          with_effect (GetDirectoryFiles (walk_fullPath filePath suffix folderName))
            (visit_folders n env filePath (walk_filePrefix suffix folderName)
               (walk_folders (walk_files (walk_filePrefix suffix folderName) filesNames))
               (walk_files (walk_filePrefix suffix folderName) filesNames)))"
| "visit_folders n env filePath filePrefix [] files = Some (Inr files, [])"
| "visit_folders n env filePath filePrefix (folder # folders) files =
     (case recursiveFilesInPath n env filePath
             (if filePrefix \<noteq> [] then ''/'' @ filePrefix else filePrefix) (last_segment folder) of
        None \<Rightarrow> None
      | Some (Inl e, evs) \<Rightarrow> Some (Inl e, evs)
      | Some (Inr filesInFolder, evs) \<Rightarrow>
          (case visit_folders n env filePath filePrefix folders (files @ filesInFolder) of
             None \<Rightarrow> None
           | Some (r, evs') \<Rightarrow> Some (r, evs @ evs')))"

record DiffResult =
  diffManifest :: "ManifestFileEntry list"
  sameManifest :: "ManifestFileEntry list"
  downloaded :: int

text \<open>
  The callback of the two \<^verbatim>\<open>filter\<close> calls that reconcile a partition with the files on
  disk: a row whose \<^verbatim>\<open>href\<close> is on disk is dropped, its size is added to
  \<^verbatim>\<open>downloaded\<close> and progress is reported; other rows are kept.
\<close>

fun reconcile ::
  "bool \<Rightarrow> int \<Rightarrow> string list \<Rightarrow> ManifestFileEntry list \<Rightarrow> int
     \<Rightarrow> ManifestFileEntry list \<times> int \<times> effect list" where
  "reconcile progress totalSize files [] acc = ([], acc, [])"
| "reconcile progress totalSize files (currentRow # rows) acc =
     (if href currentRow \<in> set files then
        (case reconcile progress totalSize files rows (acc + size currentRow) of
           (kept, acc', evs) \<Rightarrow>
             (kept, acc', (if progress then [Progress (acc + size currentRow) totalSize] else []) @ evs))
      else
        (case reconcile progress totalSize files rows acc of
           (kept, acc', evs) \<Rightarrow> (currentRow # kept, acc', evs)))"

text \<open>
  \<^verbatim>\<open>_diffManifests\<close>. The whole body is inside \<^verbatim>\<open>try\<close>; the \<^verbatim>\<open>catch\<close> returns the
  fallback. The bundled manifest is fetched first, also when \<^verbatim>\<open>oldManifest\<close> is given.
  Two entries are equal when \<^verbatim>\<open>JSON.stringify\<close> gives the same string.
\<close>

definition diffManifests ::
  "nat \<Rightarrow> Env \<Rightarrow> ManifestFileEntry list \<Rightarrow> ManifestFileEntry list option \<Rightarrow> string \<Rightarrow> int \<Rightarrow> bool
     \<Rightarrow> (DiffResult \<times> effect list) option" where
  "diffManifests fuel env newManifest oldManifest filePath totalSize progress =
     (let manifestUrl = WEBVIEW_SERVER_URL env @ ''/'' @ MANIFEST_FILE;
          fallback = \<lparr>diffManifest = newManifest,
                      sameManifest = filter (\<lambda>_. False) newManifest,
                      downloaded = 0\<rparr>
      in case fetch_json env manifestUrl of
           Inl e \<Rightarrow> Some (fallback, [Fetch manifestUrl])
         | Inr manifestResp \<Rightarrow>
             (let bundledManifest = (case oldManifest of
                                       Some m \<Rightarrow> m
                                     | None \<Rightarrow> manifestJson manifestResp);
                  bundleManifestStrings = map (JSON_stringify env) bundledManifest;
                  diffManifest0 = filter (\<lambda>entry. JSON_stringify env entry
                                                      \<notin> set bundleManifestStrings) newManifest
              in case recursiveFilesInPath fuel env filePath [] [] of
                   None \<Rightarrow> None
                 | Some (Inl e, evs) \<Rightarrow> Some (fallback, Fetch manifestUrl # evs)
                 | Some (Inr files, evs) \<Rightarrow>
                     (let sameManifest0 = filter (\<lambda>entry. JSON_stringify env entry
                                                       \<in> set bundleManifestStrings) newManifest
                      in case reconcile progress totalSize files sameManifest0 0 of
                           (sameManifest1, downloaded1, evs1) \<Rightarrow>
                             (case reconcile progress totalSize files diffManifest0 downloaded1 of
                                (diffManifest1, downloaded2, evs2) \<Rightarrow>
                                  Some (\<lparr>diffManifest = diffManifest1,
                                         sameManifest = sameManifest1,
                                         downloaded = downloaded2\<rparr>,
                                        Fetch manifestUrl # evs @ evs1 @ evs2)))))"

section \<open>Preparing the snapshot directory and downloading\<close>

definition copyBaseAppDir :: "Env \<Rightarrow> error option \<times> effect list" where
  "copyBaseAppDir env =
     (FileManager_copyTo env (getBundledAppDir env) ''APPLICATION'' (getSnapshotCacheDir env ''base''),
      [CopyTo (getBundledAppDir env) ''APPLICATION'' (getSnapshotCacheDir env ''base'')])"

fun copyCurrentAppDir ::
  "Env \<Rightarrow> string \<Rightarrow> string \<Rightarrow> ManifestFileEntry list \<Rightarrow> int \<Rightarrow> int \<Rightarrow> bool
     \<Rightarrow> (error + int) \<times> effect list" where
  "copyCurrentAppDir env folderToCopyFrom vid [] acc totalSize progress = (Inr acc, [])"
| "copyCurrentAppDir env folderToCopyFrom vid (m # ms) acc totalSize progress =
     (let source = URL_pathname env (Path_join [dataDirectory env, SNAPSHOT_CACHE, folderToCopyFrom])
                     @ ''/'' @ href m;
          target = getSnapshotCacheDir env vid @ ''/'' @ href m
      in case FileManager_copyFiles env source target of
           Some e \<Rightarrow> (Inl e, [CopyFiles source target])
         | None \<Rightarrow>
             (case copyCurrentAppDir env folderToCopyFrom vid ms (acc + size m) totalSize progress of
                (r, evs) \<Rightarrow>
                  (r, CopyFiles source target
                        # (if progress then [Progress (acc + size m) totalSize] else []) @ evs)))"

definition prepareUpdateDirectory ::
  "Env \<Rightarrow> string \<Rightarrow> string option \<Rightarrow> ManifestFileEntry list \<Rightarrow> int \<Rightarrow> int \<Rightarrow> bool
     \<Rightarrow> (error + int) \<times> effect list" where
  "prepareUpdateDirectory env vid cur manifest acc totalSize progress =
     (case copyBaseAppDir env of
        (Some e, evs) \<Rightarrow> (Inl e, evs)
      | (None, evs) \<Rightarrow>
          (let passedInFolder = (if truthy cur then the cur else ''base'');
               source = URL_pathname env (Path_join [dataDirectory env, SNAPSHOT_CACHE, ''base''])
                          @ ''/plugins'';
               target = getSnapshotCacheDir env vid @ ''/plugins''
           in case FileManager_copyFiles env source target of
                Some e \<Rightarrow> (Inl e, evs @ [CopyFiles source target])
              | None \<Rightarrow>
                  (case copyCurrentAppDir env passedInFolder vid manifest acc totalSize progress of
                     (r, evs') \<Rightarrow> (r, evs @ [CopyFiles source target] @ evs'))))"

text \<open>
  \<^verbatim>\<open>_downloadFilesFromManifest\<close>. \<^verbatim>\<open>downloadFile(entry)\<close> starts a transfer when it is
  pushed on \<^verbatim>\<open>downloads\<close> (effect \<open>DownloadFile\<close>); \<^verbatim>\<open>await Promise.all(downloads)\<close>
  waits for the started transfers (effect \<open>AwaitAll\<close>) and throws when one of them was
  rejected. The progress calls of the transfers of a batch are listed in the order of the
  batch, before its \<open>AwaitAll\<close>; when the batch fails none is listed.
\<close>

definition maxBatch :: nat where
  "maxBatch = 20"

text \<open>
  \<^verbatim>\<open>Math.round(manifest.length / maxBatch)\<close>, plus one when the division leaves a
  remainder. \<^verbatim>\<open>Math.round\<close> rounds a half upward, which on \<open>n / 20\<close> is
  \<open>(2 * n + 20) div 40\<close>. The value is only printed.
\<close>

definition numberBatches :: "nat \<Rightarrow> nat" where
  "numberBatches n =
     (let rounded = (2 * n + maxBatch) div (2 * maxBatch)
      in if n mod maxBatch \<noteq> 0 then rounded + 1 else rounded)"

definition file_url :: "Env \<Rightarrow> string \<Rightarrow> ManifestFileEntry \<Rightarrow> string" where
  "file_url env baseUrl file = URL_resolve env baseUrl (href file)"

definition file_target :: "Env \<Rightarrow> string \<Rightarrow> ManifestFileEntry \<Rightarrow> string" where
  "file_target env vid file = Path_join [getSnapshotCacheDir env vid, href file]"

fun batch_progress :: "bool \<Rightarrow> int \<Rightarrow> ManifestFileEntry list \<Rightarrow> int \<Rightarrow> int \<times> effect list" where
  "batch_progress progress totalSize [] acc = (acc, [])"
| "batch_progress progress totalSize (file # files) acc =
     (case batch_progress progress totalSize files (acc + size file) of
        (acc', evs) \<Rightarrow> (acc', (if progress then [Progress (acc + size file) totalSize] else []) @ evs))"

definition awaitAll ::
  "Env \<Rightarrow> string \<Rightarrow> string \<Rightarrow> bool \<Rightarrow> int \<Rightarrow> ManifestFileEntry list \<Rightarrow> int
     \<Rightarrow> (error + int) \<times> effect list" where
  "awaitAll env baseUrl vid progress totalSize downloads acc =
     (case List.map_filter
             (\<lambda>file. FileManager_downloadAndWriteFile env (file_url env baseUrl file)
                                                         (file_target env vid file)) downloads of
        e # _ \<Rightarrow> (Inl e, [AwaitAll (length downloads)])
      | [] \<Rightarrow>
          (case batch_progress progress totalSize downloads acc of
             (acc', evs) \<Rightarrow> (Inr acc', evs @ [AwaitAll (length downloads)])))"

fun download_loop ::
  "Env \<Rightarrow> string \<Rightarrow> string \<Rightarrow> bool \<Rightarrow> int \<Rightarrow> nat \<Rightarrow> ManifestFileEntry list
     \<Rightarrow> ManifestFileEntry list \<Rightarrow> nat \<Rightarrow> int \<Rightarrow> (error + unit) \<times> effect list" where
  "download_loop env baseUrl vid progress totalSize n [] downloads count acc =
     (if downloads \<noteq> [] then
        (case awaitAll env baseUrl vid progress totalSize downloads acc of
           (Inl e, evs) \<Rightarrow> (Inl e, evs)
         | (Inr acc', evs) \<Rightarrow> (Inr (), evs @ [TimerDiff (count + 1) (numberBatches n)]))
      else (Inr (), []))"
| "download_loop env baseUrl vid progress totalSize n (entry # rest) downloads count acc =
     (if length downloads \<ge> maxBatch then
        (case awaitAll env baseUrl vid progress totalSize downloads acc of
           (Inl e, evs) \<Rightarrow> (Inl e, evs)
         | (Inr acc', evs) \<Rightarrow>
             (case download_loop env baseUrl vid progress totalSize n rest [entry] (count + 1) acc' of
                (r, evs') \<Rightarrow>
                  (r, evs @ [TimerDiff (count + 1) (numberBatches n), Sleep,
                             DownloadFile (file_url env baseUrl entry) (file_target env vid entry)]
                          @ evs')))
      else
        (case download_loop env baseUrl vid progress totalSize n rest (downloads @ [entry]) count acc of
           (r, evs') \<Rightarrow>
             (r, DownloadFile (file_url env baseUrl entry) (file_target env vid entry) # evs')))"

definition downloadFilesFromManifest ::
  "Env \<Rightarrow> string \<Rightarrow> ManifestFileEntry list \<Rightarrow> string \<Rightarrow> int \<Rightarrow> int \<Rightarrow> bool
     \<Rightarrow> (error + unit) \<times> effect list" where
  "downloadFilesFromManifest env baseUrl manifest vid acc totalSize progress =
     download_loop env baseUrl vid progress totalSize (length manifest) manifest [] 0 acc"


section \<open>The update state machine\<close>

definition check_endpoint :: "ISavedPreferences \<Rightarrow> string" where
  "check_endpoint prefs = host prefs @ ''/apps/'' @ appId prefs @ ''/channels/check-device''"

text \<open>
  \<^verbatim>\<open>checkForUpdate\<close>. \<open>fetch_check_device\<close> is the outcome of
  \<^verbatim>\<open>Promise.race([timeout, request])\<close>. \<^verbatim>\<open>resp.ok\<close> is a status from 200 to 299.
  When the answer names an update, \<^verbatim>\<open>prefs.availableUpdate\<close> is assigned a new record
  in state \<open>Available\<close>; the assignment does not look at the record that is there.
\<close>

definition checkForUpdate :: "Env \<Rightarrow> ISavedPreferences \<Rightarrow> CheckForUpdateResponse outcome" where
  "checkForUpdate env prefs =
     (if \<not> navigator_onLine env then (Inl (Error ''The device is offline.''), prefs, [])
      else case fetch_check_device env of
        Inl e \<Rightarrow> (Inl e, prefs, [Fetch (check_endpoint prefs)])
      | Inr resp \<Rightarrow>
          if 200 \<le> status resp \<and> status resp \<le> 299 then
            (case json_data resp of
               None \<Rightarrow> (Inl (Error ''TypeError''), prefs, [Fetch (check_endpoint prefs)])
             | Some checkForUpdateResp \<Rightarrow>
                 if available checkForUpdateResp \<and> truthy (resp_url checkForUpdateResp)
                    \<and> truthy (snapshot checkForUpdateResp) \<and> truthy (build checkForUpdateResp)
                 then
                   (let prefs1 = prefs\<lparr>availableUpdate := Some
                          \<lparr>binaryVersionCode = prefs_binaryVersionCode prefs,
                           binaryVersionName = prefs_binaryVersionName prefs,
                           channel = prefs_channel prefs,
                           state = Available,
                           lastUsed = Date_toISOString env,
                           url = the (resp_url checkForUpdateResp),
                           versionId = the (snapshot checkForUpdateResp),
                           buildId = the (build checkForUpdateResp)\<rparr>\<rparr>
                    in case setPreferences env prefs1 of
                         Some e \<Rightarrow> (Inl e, prefs1, [Fetch (check_endpoint prefs), SavePrefs prefs1])
                       | None \<Rightarrow> (Inr checkForUpdateResp, prefs1,
                                   [Fetch (check_endpoint prefs), SavePrefs prefs1]))
                 else (Inr checkForUpdateResp, prefs, [Fetch (check_endpoint prefs)]))
          else (Inl (Error ''Error Status''), prefs, [Fetch (check_endpoint prefs)]))"

text \<open>
  The \<^verbatim>\<open>try\<close> block of \<^verbatim>\<open>downloadUpdate\<close> that looks for the manifest of the current
  version; a failure is caught and leaves \<^verbatim>\<open>currentManifestJson\<close> undefined.
\<close>

definition fetchCurrentManifest ::
  "Env \<Rightarrow> ISavedPreferences \<Rightarrow> IAvailableUpdate \<Rightarrow> ManifestFileEntry list option \<times> effect list" where
  "fetchCurrentManifest env prefs au =
     (if truthy (currentVersionId prefs) then
        (let newUrl = replace_first (url au) (versionId au) (the (currentVersionId prefs))
         in if newUrl \<noteq> url au then
              (case fetch_json env newUrl of
                 Inl e \<Rightarrow> (None, [Fetch newUrl,
                                   ConsoleLog ''Was not able to download the current manifest file.''])
               | Inr currentManifestObject \<Rightarrow>
                   (Some (manifestJson currentManifestObject), [Fetch newUrl]))
            else (None, []))
      else (None, []))"

text \<open>
  \<^verbatim>\<open>downloadUpdate\<close>, the part after the two manifests are known: diff, prepare the
  directory, download, then set the state to \<open>Pending\<close> and save. \<open>None\<close> is a
  directory walk that has not returned.
\<close>

definition downloadAvailable ::
  "nat \<Rightarrow> Env \<Rightarrow> bool \<Rightarrow> ISavedPreferences \<Rightarrow> IAvailableUpdate \<Rightarrow> FetchManifestResp
     \<Rightarrow> ManifestFileEntry list option \<Rightarrow> bool outcome option" where
  "downloadAvailable fuel env progress prefs au resp currentManifestJson =
     (let filePath = getSnapshotCacheDir env (versionId au);
          totalSize = sum_list (map size (manifestJson resp))
      in case diffManifests fuel env (manifestJson resp) currentManifestJson filePath totalSize progress of
           None \<Rightarrow> None
         | Some (d, evs2) \<Rightarrow>
             (let evs3 = evs2 @ (if progress then [Progress (downloaded d) totalSize] else [])
              in case prepareUpdateDirectory env (versionId au) (currentVersionId prefs)
                        (sameManifest d) (downloaded d) totalSize progress of
                   (Inl e, evs4) \<Rightarrow> Some (Inl e, prefs, evs3 @ evs4)
                 | (Inr downloaded1, evs4) \<Rightarrow>
                     (case downloadFilesFromManifest env (fileBaseUrl resp) (diffManifest d)
                             (versionId au) downloaded1 totalSize progress of
                        (Inl e, evs5) \<Rightarrow> Some (Inl e, prefs, evs3 @ evs4 @ evs5)
                      | (Inr _, evs5) \<Rightarrow>
                          (let prefs1 = prefs\<lparr>availableUpdate := Some (au\<lparr>state := Pending\<rparr>)\<rparr>
                           in case setPreferences env prefs1 of
                                Some e \<Rightarrow>
                                  Some (Inl e, prefs1, evs3 @ evs4 @ evs5 @ [SavePrefs prefs1])
                              | None \<Rightarrow>
                                  Some (Inr True, prefs1, evs3 @ evs4 @ evs5 @ [SavePrefs prefs1])))))"

definition downloadUpdate :: "nat \<Rightarrow> Env \<Rightarrow> bool \<Rightarrow> ISavedPreferences \<Rightarrow> bool outcome option" where
  "downloadUpdate fuel env progress prefs =
     (case availableUpdate prefs of
        None \<Rightarrow> Some (Inr False, prefs, [])
      | Some au \<Rightarrow>
          if state au = Available then
            (case fetch_json env (url au) of
               Inl e \<Rightarrow> Some (Inl e, prefs, [Fetch (url au)])
             | Inr resp \<Rightarrow>
                 (case fetchCurrentManifest env prefs au of
                    (currentManifestJson, evs1) \<Rightarrow>
                      (case downloadAvailable fuel env progress prefs au resp currentManifestJson of
                         None \<Rightarrow> None
                       | Some (r, prefs', evs) \<Rightarrow> Some (r, prefs', Fetch (url au) # evs1 @ evs))))
          else Some (Inr False, prefs, []))"

subsection \<open>Sequences of operations\<close>

datatype operation = CheckForUpdate | DownloadUpdate | ExtractUpdate | ReloadApp

text \<open>
  One call of a public operation: the environment it meets, the fuel of the directory walk,
  whether a progress callback is passed, and the operation. The result is the preferences
  the call leaves behind (also when it throws), or \<open>None\<close> when the call has not returned.
\<close>

record call =
  call_env :: Env
  call_fuel :: nat
  call_progress :: bool
  call_op :: operation

definition step :: "call \<Rightarrow> ISavedPreferences \<Rightarrow> ISavedPreferences option" where
  "step c prefs =
     (case call_op c of
        CheckForUpdate \<Rightarrow> Some (fst (snd (checkForUpdate (call_env c) prefs)))
      | DownloadUpdate \<Rightarrow>
          map_option (\<lambda>res. fst (snd res))
            (downloadUpdate (call_fuel c) (call_env c) (call_progress c) prefs)
      | ExtractUpdate \<Rightarrow> Some (fst (snd (extractUpdate (call_env c) (call_progress c) prefs)))
      | ReloadApp \<Rightarrow> Some (fst (snd (reloadApp (call_env c) prefs))))"

text \<open>The preferences before the first call and after each call that returned.\<close>

fun run_states :: "call list \<Rightarrow> ISavedPreferences \<Rightarrow> ISavedPreferences list" where
  "run_states [] prefs = [prefs]"
| "run_states (c # cs) prefs =
     prefs # (case step c prefs of None \<Rightarrow> [] | Some prefs' \<Rightarrow> run_states cs prefs')"

text \<open>
  The position of \<^verbatim>\<open>availableUpdate\<close> on the path
  Available, Pending, Ready, cleared.
\<close>

definition phase :: "ISavedPreferences \<Rightarrow> nat" where
  "phase prefs =
     (case availableUpdate prefs of
        None \<Rightarrow> 3
      | Some au \<Rightarrow> (case state au of Available \<Rightarrow> 0 | Pending \<Rightarrow> 1 | Ready \<Rightarrow> 2))"

section \<open>Reading a trace of the download scheduler\<close>

text \<open>
  The batches of a trace are its \<open>AwaitAll\<close> events. \<open>in_flight_ok k evs\<close> reads the
  trace with \<open>k\<close> transfers started and not yet awaited: a transfer starts only while
  fewer than \<open>maxBatch\<close> are in flight, and an \<open>AwaitAll\<close> waits for exactly the
  transfers in flight, after which none is.
\<close>

fun awaited :: "effect list \<Rightarrow> nat list" where
  "awaited [] = []"
| "awaited (AwaitAll n # evs) = n # awaited evs"
| "awaited (ev # evs) = awaited evs"

fun in_flight_ok :: "nat \<Rightarrow> effect list \<Rightarrow> bool" where
  "in_flight_ok k [] = (k = 0)"
| "in_flight_ok k (DownloadFile u t # evs) = (k < maxBatch \<and> in_flight_ok (Suc k) evs)"
| "in_flight_ok k (AwaitAll n # evs) = (n = k \<and> in_flight_ok 0 evs)"
| "in_flight_ok k (ev # evs) = in_flight_ok k evs"

text \<open>The transfers a trace starts, in order, as pairs of URL and target path.\<close>

fun started :: "effect list \<Rightarrow> (string \<times> string) list" where
  "started [] = []"
| "started (DownloadFile u t # evs) = (u, t) # started evs"
| "started (ev # evs) = started evs"

text \<open>The directories a trace asks the native side to remove, in order.\<close>

fun removed :: "effect list \<Rightarrow> string list" where
  "removed [] = []"
| "removed (Remove p # evs) = p # removed evs"
| "removed (ev # evs) = removed evs"

text \<open>A stretch of a trace that only reports progress.\<close>

definition quiet :: "effect list \<Rightarrow> bool" where
  "quiet evs = (\<forall>e \<in> set evs. \<exists>d s. e = Progress d s)"

section \<open>Example states and environments\<close>

text \<open>
  An environment in which every collaborator answers without error: the webview serves
  the bundled application, directories are empty, the update service has nothing new.
\<close>

definition env_ok :: Env where
  "env_ok =
     \<lparr>dataDirectory = ''file:///data/'',
      WEBVIEW_SERVER_URL = ''http://localhost'',
      Capacitor_defined = False,
      navigator_onLine = True,
      Date_toISOString = ''2024-05-01T10:00:00.000Z'',
      URL_pathname = drop 7,
      URL_resolve = (\<lambda>baseUrl h. baseUrl @ h),
      JSON_stringify = (\<lambda>entry. href entry @ '':'' @ replicate (nat (size entry)) CHR ''1''),
      fetch_check_device = Inr \<lparr>status = 200, json_data = Some \<lparr>available = False,
                                  resp_url = None, snapshot = None, build = None\<rparr>\<rparr>,
      fetch_json = (\<lambda>u. Inr \<lparr>fileBaseUrl = u, manifestJson = []\<rparr>),
      setPreferences = (\<lambda>prefs. None),
      getServerBasePath = Inr ''/data/app/www'',
      FileManager_remove = (\<lambda>path. None),
      FileManager_copyTo = (\<lambda>path directory target. None),
      FileManager_copyFiles = (\<lambda>source target. None),
      FileManager_downloadAndWriteFile = (\<lambda>u target. None),
      FileManager_getDirectoryFiles = (\<lambda>path. Inr [])\<rparr>"

text \<open>The same, but the native side rejects every save of the preferences.\<close>

definition env_save_rejects :: Env where
  "env_save_rejects = env_ok\<lparr>setPreferences := (\<lambda>prefs. Some (Error ''rejected''))\<rparr>"


text \<open>The same as \<open>env_ok\<close>, but the update service announces version v2.\<close>

definition env_update_v2 :: Env where
  "env_update_v2 = env_ok\<lparr>fetch_check_device :=
      Inr \<lparr>status = 200, json_data = Some \<lparr>available = True,
            resp_url = Some ''https://cdn/v2/pro-manifest.json'',
            snapshot = Some ''v2'', build = Some ''b2''\<rparr>\<rparr>\<rparr>"

text \<open>The same as \<open>env_ok\<close>, but the bundled manifest cannot be fetched.\<close>

definition env_no_bundled_manifest :: Env where
  "env_no_bundled_manifest = env_ok\<lparr>fetch_json := (\<lambda>u. Inl (Error ''Failed to fetch''))\<rparr>"

definition update_of :: "string \<Rightarrow> string \<Rightarrow> UpdateState \<Rightarrow> string \<Rightarrow> IAvailableUpdate" where
  "update_of vid code st used =
     \<lparr>binaryVersionCode = code, binaryVersionName = ''1.0'', channel = ''Production'',
      state = st, lastUsed = used, url = ''https://cdn/'' @ vid @ ''/pro-manifest.json'',
      versionId = vid, buildId = ''b'' @ vid\<rparr>"

text \<open>Preferences of binary 1.0 (code 2) with nothing installed and nothing pending.\<close>

definition prefs_empty :: ISavedPreferences where
  "prefs_empty =
     \<lparr>appId = ''app'', host = ''https://api'', prefs_channel = ''Production'',
      prefs_binaryVersionName = ''1.0'', prefs_binaryVersionCode = ''2'',
      currentVersionId = None, currentBuildId = None, updateMethod = ''background'',
      maxVersions = 2, minBackgroundDuration = 30, disabled = False,
      updates = [], availableUpdate = None\<rparr>"

text \<open>The same as \<open>env_ok\<close>, but the native removal of a directory fails.\<close>

definition env_remove_rejects :: Env where
  "env_remove_rejects = env_ok\<lparr>FileManager_remove := (\<lambda>path. Some (Error ''ENOENT''))\<rparr>"

text \<open>Version v1 is installed and current; it was built for the running binary.\<close>

definition prefs_current_v1 :: ISavedPreferences where
  "prefs_current_v1 =
     prefs_empty\<lparr>currentVersionId := Some ''v1'', currentBuildId := Some ''bv1'',
                  updates := [(''v1'', update_of ''v1'' ''2'' Ready ''2024-01-01T10:00:00.000Z'')]\<rparr>"

text \<open>
  Four installed versions of the running binary; v1 is current and the least recently
  used of the four.
\<close>

definition prefs_four :: ISavedPreferences where
  "prefs_four =
     prefs_empty\<lparr>currentVersionId := Some ''v1'', currentBuildId := Some ''bv1'',
                  updates := [(''v3'', update_of ''v3'' ''2'' Ready ''2024-03-01T10:00:00.000Z''),
                              (''v1'', update_of ''v1'' ''2'' Ready ''2024-01-01T10:00:00.000Z''),
                              (''v2'', update_of ''v2'' ''2'' Ready ''2024-02-01T10:00:00.000Z''),
                              (''v4'', update_of ''v4'' ''2'' Ready ''2024-04-01T10:00:00.000Z'')]\<rparr>"

text \<open>Version v1 is current; version v2 has been downloaded (\<open>Pending\<close>).\<close>

definition prefs_pending_v2 :: ISavedPreferences where
  "prefs_pending_v2 =
     prefs_current_v1\<lparr>availableUpdate :=
        Some (update_of ''v2'' ''2'' Pending ''2024-02-01T10:00:00.000Z'')\<rparr>"

text \<open>Version v1 is current; version v2 has been extracted (\<open>Ready\<close>) and is in \<open>updates\<close>.\<close>

definition prefs_ready_v2 :: ISavedPreferences where
  "prefs_ready_v2 =
     prefs_current_v1\<lparr>availableUpdate :=
        Some (update_of ''v2'' ''2'' Ready ''2024-02-01T10:00:00.000Z''),
        updates := [(''v1'', update_of ''v1'' ''2'' Ready ''2024-01-01T10:00:00.000Z''),
                    (''v2'', update_of ''v2'' ''2'' Ready ''2024-02-01T10:00:00.000Z'')]\<rparr>"

text \<open>
  Version v2 is \<open>Ready\<close>, but its record is no longer in \<open>updates\<close> (it was deleted
  with \<^verbatim>\<open>deleteVersionById\<close> after the extraction).
\<close>

definition prefs_ready_v2_deleted :: ISavedPreferences where
  "prefs_ready_v2_deleted =
     prefs_current_v1\<lparr>availableUpdate :=
        Some (update_of ''v2'' ''2'' Ready ''2024-02-01T10:00:00.000Z'')\<rparr>"

text \<open>The same as \<open>env_ok\<close>, but the webview serves the snapshot of version v2.\<close>

definition env_serving_v2 :: Env where
  "env_serving_v2 = env_ok\<lparr>getServerBasePath := Inr ''/data/ionic_built_snapshots/v2''\<rparr>"

text \<open>The same as \<open>env_ok\<close>, but the native listing of a directory fails.\<close>

definition env_listing_rejects :: Env where
  "env_listing_rejects =
     env_ok\<lparr>FileManager_getDirectoryFiles := (\<lambda>path. Inl (Error ''listing failed''))\<rparr>"

text \<open>A manifest of two files, 10 and 32 bytes.\<close>

definition manifest_two :: "ManifestFileEntry list" where
  "manifest_two = [\<lparr>href = ''index.html'', size = 10\<rparr>, \<lparr>href = ''main.js'', size = 32\<rparr>]"

text \<open>The same as \<open>env_ok\<close>, but every fetched manifest is \<open>manifest_two\<close>.\<close>

definition env_manifest_two :: Env where
  "env_manifest_two =
     env_ok\<lparr>fetch_json := (\<lambda>u. Inr \<lparr>fileBaseUrl = u, manifestJson = manifest_two\<rparr>)\<rparr>"

text \<open>A manifest of 45 files of one byte each.\<close>

definition manifest_45 :: "ManifestFileEntry list" where
  "manifest_45 = map (\<lambda>i. \<lparr>href = replicate (Suc i) CHR ''a'' @ ''.js'', size = 1\<rparr>) [0..<45]"

text \<open>Version v1 is current; version v2 has been announced (\<open>Available\<close>).\<close>

definition prefs_available_v2 :: ISavedPreferences where
  "prefs_available_v2 =
     prefs_current_v1\<lparr>availableUpdate :=
        Some (update_of ''v2'' ''2'' Available ''2024-02-01T10:00:00.000Z'')\<rparr>"

text \<open>Download, extract, reload: the three calls that follow a successful check.\<close>

definition calls_install :: "call list" where
  "calls_install =
     [\<lparr>call_env = env_manifest_two, call_fuel = 1, call_progress = True, call_op = DownloadUpdate\<rparr>,
      \<lparr>call_env = env_ok, call_fuel = 0, call_progress = False, call_op = ExtractUpdate\<rparr>,
      \<lparr>call_env = env_ok, call_fuel = 0, call_progress = False, call_op = ReloadApp\<rparr>]"

section \<open>Properties\<close>


subsection \<open>Deleting a version\<close>

lemma deleteVersionById_prefs:
  "fst (snd (deleteVersionById env vid prefs)) = prefs\<lparr>updates := AList.delete vid (updates prefs)\<rparr>"
  by (simp add: deleteVersionById_def Let_def split: option.splits)

lemma deleteVersionById_result:
  "fst (deleteVersionById env vid prefs) =
     (case setPreferences env (prefs\<lparr>updates := AList.delete vid (updates prefs)\<rparr>) of
        None \<Rightarrow> Inr True | Some e \<Rightarrow> Inl e)"
  by (simp add: deleteVersionById_def Let_def split: option.splits)

lemma deleteVersionById_effects:
  "e \<in> set (snd (snd (deleteVersionById env vid prefs))) \<Longrightarrow>
     (\<exists>p. e = SavePrefs p) \<or> e = Remove (getSnapshotCacheDir env vid) \<or> (\<exists>s. e = ConsoleLog s)"
  by (auto simp: deleteVersionById_def cleanSnapshotDir_def Let_def split: option.splits)

lemma map_of_delete_other: "k \<noteq> v \<Longrightarrow> map_of (AList.delete k al) v = map_of al v"
  by (simp add: delete_conv')

text \<open>Deleting another version leaves everything about version \<open>v\<close> as it was.\<close>

lemma deleteVersionById_other:
  assumes "vid \<noteq> v" and "deleteVersionById env vid prefs = (r, prefs', evs)"
  shows "currentVersionId prefs' = currentVersionId prefs \<and>
      currentBuildId prefs' = currentBuildId prefs \<and>
      availableUpdate prefs' = availableUpdate prefs \<and>
      prefs_binaryVersionName prefs' = prefs_binaryVersionName prefs \<and>
      prefs_binaryVersionCode prefs' = prefs_binaryVersionCode prefs \<and>
      map_of (updates prefs') v = map_of (updates prefs) v \<and>
      (\<forall>p. Remove p \<in> set evs \<longrightarrow> (\<exists>u. u \<noteq> v \<and> p = getSnapshotCacheDir env u)) \<and>
      (\<forall>p. SetServerBasePath p \<notin> set evs)"
proof -
  have p: "prefs' = prefs\<lparr>updates := AList.delete vid (updates prefs)\<rparr>"
    using deleteVersionById_prefs [of env vid prefs] assms(2) by simp
  have e: "\<And>e. e \<in> set evs \<Longrightarrow>
     (\<exists>p. e = SavePrefs p) \<or> e = Remove (getSnapshotCacheDir env vid) \<or> (\<exists>s. e = ConsoleLog s)"
    using deleteVersionById_effects [of _ env vid prefs] assms(2) by simp
  show ?thesis using assms(1) e by (auto simp: p map_of_delete_other)
qed

subsection \<open>The two cleanup loops\<close>

lemma cleanupStale_loop_keeps:
  assumes "currentVersionId prefs = Some v"
      and "\<forall>u \<in> set us. versionId u = v \<longrightarrow>
             isUpdateForCurrentBinary prefs u \<or> isRunningVersion env v = Inr True"
      and "cleanupStale_loop env us prefs = (r, prefs', evs)"
  shows "currentVersionId prefs' = Some v \<and>
      currentBuildId prefs' = currentBuildId prefs \<and>
      availableUpdate prefs' = availableUpdate prefs \<and>
      prefs_binaryVersionName prefs' = prefs_binaryVersionName prefs \<and>
      prefs_binaryVersionCode prefs' = prefs_binaryVersionCode prefs \<and>
      map_of (updates prefs') v = map_of (updates prefs) v \<and>
      (\<forall>p. Remove p \<in> set evs \<longrightarrow> (\<exists>u. u \<noteq> v \<and> p = getSnapshotCacheDir env u)) \<and>
      (\<forall>p. SetServerBasePath p \<notin> set evs)"
  using assms
proof (induction us arbitrary: prefs r prefs' evs)
  case Nil
  then show ?case by simp
next
  case (Cons u us)
  show ?case
  proof (cases "isUpdateForCurrentBinary prefs u")
    case True
    with Cons.prems have "cleanupStale_loop env us prefs = (r, prefs', evs)" by simp
    with Cons.IH [OF Cons.prems(1) _ this] Cons.prems(2) show ?thesis by simp
  next
    case nb: False
    show ?thesis
    proof (cases "isRunningVersion env (versionId u)")
      case (Inl e)
      with nb Cons.prems show ?thesis by auto
    next
      case (Inr b)
      show ?thesis
      proof (cases b)
        case True
        obtain r1 p1 e1 where l: "cleanupStale_loop env us prefs = (r1, p1, e1)"
          by (cases "cleanupStale_loop env us prefs") auto
        with nb Inr True Cons.prems(3) have eq: "r = r1" "prefs' = p1" "evs = GetServerBasePath # e1"
          by auto
        from Cons.IH [OF Cons.prems(1) _ l] Cons.prems(2) show ?thesis
          unfolding eq by auto
      next
        case False
        with Inr nb Cons.prems(2) have ne: "versionId u \<noteq> v" by auto
        with Cons.prems(1) have ni: "\<not> isUpdateCurrentlyInstalled prefs u"
          by (simp add: isUpdateCurrentlyInstalled_def)
        obtain r1 p1 e1 where d: "deleteVersionById env (versionId u) prefs = (r1, p1, e1)"
          by (cases "deleteVersionById env (versionId u) prefs") auto
        note k1 = deleteVersionById_other [OF ne d]
        show ?thesis
        proof (cases r1)
          case (Inl e)
          with nb Inr False ni d Cons.prems(3) have eq: "prefs' = p1" "evs = GetServerBasePath # e1"
            by auto
          show ?thesis using k1 Cons.prems(1) unfolding eq by auto
        next
          case (Inr x)
          obtain r2 p2 e2 where l: "cleanupStale_loop env us p1 = (r2, p2, e2)"
            by (cases "cleanupStale_loop env us p1") auto
          with nb \<open>isRunningVersion env (versionId u) = Inr b\<close> False ni d Inr Cons.prems(3)
          have eq: "prefs' = p2" "evs = GetServerBasePath # e1 @ e2"
            by auto
          have c1: "currentVersionId p1 = Some v" using k1 Cons.prems(1) by simp
          have h1: "\<forall>u \<in> set us. versionId u = v \<longrightarrow>
             isUpdateForCurrentBinary p1 u \<or> isRunningVersion env v = Inr True"
            using Cons.prems(2) k1 by (simp add: isUpdateForCurrentBinary_def)
          from Cons.IH [OF c1 h1 l] k1 show ?thesis unfolding eq by auto
        qed
      qed
    qed
  qed
qed

lemma delete_loop_keeps:
  assumes "\<forall>u \<in> set us. versionId u \<noteq> v"
      and "delete_loop env us prefs = (r, prefs', evs)"
  shows "currentVersionId prefs' = currentVersionId prefs \<and>
      currentBuildId prefs' = currentBuildId prefs \<and>
      availableUpdate prefs' = availableUpdate prefs \<and>
      map_of (updates prefs') v = map_of (updates prefs) v \<and>
      (\<forall>p. Remove p \<in> set evs \<longrightarrow> (\<exists>u. u \<noteq> v \<and> p = getSnapshotCacheDir env u)) \<and>
      (\<forall>p. SetServerBasePath p \<notin> set evs)"
  using assms
proof (induction us arbitrary: prefs r prefs' evs)
  case Nil
  then show ?case by simp
next
  case (Cons u us)
  from Cons.prems(1) have ne: "versionId u \<noteq> v" by simp
  obtain r1 p1 e1 where d: "deleteVersionById env (versionId u) prefs = (r1, p1, e1)"
    by (cases "deleteVersionById env (versionId u) prefs") auto
  note k1 = deleteVersionById_other [OF ne d]
  show ?case
  proof (cases r1)
    case (Inl e)
    with d Cons.prems(2) have eq: "prefs' = p1" "evs = e1" by auto
    show ?thesis using k1 unfolding eq by simp
  next
    case (Inr x)
    obtain r2 p2 e2 where l: "delete_loop env us p1 = (r2, p2, e2)"
      by (cases "delete_loop env us p1") auto
    with d Inr Cons.prems(2) have eq: "prefs' = p2" "evs = e1 @ e2" by auto
    from Cons.prems(1) have "\<forall>u \<in> set us. versionId u \<noteq> v" by simp
    from Cons.IH [OF this l] k1 show ?thesis unfolding eq by auto
  qed
qed

lemma set_slice_from: "set (slice_from n xs) \<subseteq> set xs"
  by (auto simp: slice_from_def dest: in_set_dropD)

lemma updatesToDelete_subset:
  "set (updatesToDelete prefs) \<subseteq>
     {a \<in> set (getStoredUpdates prefs). \<not> isUpdateCurrentlyInstalled prefs a}"
proof -
  have "set (updatesToDelete prefs) \<subseteq> set (rev (sort_key lastUsed
          (filter (\<lambda>a. \<not> isUpdateCurrentlyInstalled prefs a) (getStoredUpdates prefs))))"
    unfolding updatesToDelete_def by (rule set_slice_from)
  also have "\<dots> = {a \<in> set (getStoredUpdates prefs). \<not> isUpdateCurrentlyInstalled prefs a}"
    by (simp only: set_rev set_sort set_filter)
  finally show ?thesis .
qed

lemma updatesToDelete_not_current:
  assumes "currentVersionId prefs = Some v" and "u \<in> set (updatesToDelete prefs)"
  shows "versionId u \<noteq> v"
proof -
  from assms(2) updatesToDelete_subset have "\<not> isUpdateCurrentlyInstalled prefs u" by blast
  with assms(1) show ?thesis by (simp add: isUpdateCurrentlyInstalled_def)
qed

text \<open>
  What \<^verbatim>\<open>cleanupVersions\<close> keeps: when \<open>v\<close> is the current version and either the webview
  serves it or every record of it is of the running binary, then \<open>v\<close> stays current, its
  entry and its directory are not touched, and the webview is not redirected.
\<close>

lemma cleanupVersions_keeps:
  assumes "currentVersionId prefs = Some v"
      and "isRunningVersion env v = Inr True \<or>
           (\<forall>u \<in> set (getStoredUpdates prefs). versionId u = v \<longrightarrow> isUpdateForCurrentBinary prefs u)"
      and "cleanupVersions env prefs = (r, prefs', evs)"
  shows "currentVersionId prefs' = Some v \<and>
         currentBuildId prefs' = currentBuildId prefs \<and>
         availableUpdate prefs' = availableUpdate prefs \<and>
         map_of (updates prefs') v = map_of (updates prefs) v \<and>
         (\<forall>p. Remove p \<in> set evs \<longrightarrow> (\<exists>u. u \<noteq> v \<and> p = getSnapshotCacheDir env u)) \<and>
         (\<forall>p. SetServerBasePath p \<notin> set evs)"
proof -
  obtain r1 p1 e1 where s: "cleanupStale_loop env (getStoredUpdates prefs) prefs = (r1, p1, e1)"
    by (cases "cleanupStale_loop env (getStoredUpdates prefs) prefs") auto
  have h: "\<forall>u \<in> set (getStoredUpdates prefs). versionId u = v \<longrightarrow>
             isUpdateForCurrentBinary prefs u \<or> isRunningVersion env v = Inr True"
    using assms(2) by auto
  note k1 = cleanupStale_loop_keeps [OF assms(1) h s]
  show ?thesis
  proof (cases r1)
    case (Inl e)
    with s assms(3) have eq: "prefs' = p1" "evs = e1"
      by (auto simp: cleanupVersions_def cleanupStaleVersions_def)
    show ?thesis using k1 unfolding eq by simp
  next
    case (Inr x)
    obtain r2 p2 e2 where l: "delete_loop env (updatesToDelete p1) p1 = (r2, p2, e2)"
      by (cases "delete_loop env (updatesToDelete p1) p1") auto
    with s Inr assms(3) have eq: "prefs' = p2" "evs = e1 @ e2"
      by (auto simp: cleanupVersions_def cleanupStaleVersions_def)
    have c1: "currentVersionId p1 = Some v" using k1 by simp
    have "\<forall>u \<in> set (updatesToDelete p1). versionId u \<noteq> v"
      using updatesToDelete_not_current [OF c1] by blast
    from delete_loop_keeps [OF this l] k1 show ?thesis unfolding eq by auto
  qed
qed

subsection \<open>Eviction by rank\<close>

lemma cleanupStale_loop_noop:
  "\<forall>u \<in> set us. isUpdateForCurrentBinary prefs u \<Longrightarrow>
     cleanupStale_loop env us prefs = (Inr (), prefs, [])"
  by (induction us) simp_all

lemma hd_sort_key_min:
  assumes "xs \<noteq> []"
  shows "hd (sort_key f xs) \<in> set xs \<and> (\<forall>x \<in> set xs. f (hd (sort_key f xs)) \<le> f x)"
proof -
  let ?s = "sort_key f xs"
  have ne: "?s \<noteq> []" using assms by (metis length_0_conv length_sort)
  then obtain y ys where s: "?s = y # ys" by (cases ?s) auto
  have "sorted (map f ?s)" by (rule sorted_sort_key)
  then have "\<forall>x \<in> set ys. f y \<le> f x" unfolding s by simp
  moreover have "set ?s = set xs" by (rule set_sort)
  ultimately show ?thesis unfolding s by auto
qed

lemma drop2_rev_sort3:
  assumes "length xs = 3" and "distinct (map f xs)"
      and "old \<in> set xs" and "\<forall>x \<in> set xs. f old \<le> f x"
  shows "drop 2 (rev (sort_key f xs)) = [old]"
proof -
  let ?s = "sort_key f xs"
  have len: "length ?s = 3" using assms(1) by simp
  have ne: "xs \<noteq> []" using assms(1) by auto
  note m = hd_sort_key_min [OF ne, of f]
  have "f (hd ?s) \<le> f old" using m assms(3) by blast
  moreover have "f old \<le> f (hd ?s)" using m assms(4) by blast
  ultimately have "f (hd ?s) = f old" by (rule antisym)
  moreover have "inj_on f (set xs)" using assms(2) by (simp add: distinct_map)
  ultimately have h: "hd ?s = old" using m assms(3) by (meson inj_onD)
  obtain a b c where s: "?s = [a, b, c]"
    using len by (metis (no_types) length_0_conv length_Suc_conv numeral_3_eq_3)
  with h have "a = old" by simp
  with s show ?thesis by simp
qed

lemma stored_after_delete:
  assumes "distinct (map fst al)" and "\<forall>(k, u) \<in> set al. k = versionId u"
      and "old \<in> snd ` set al"
  shows "map snd (AList.delete (versionId old) al) = filter (\<lambda>u. u \<noteq> old) (map snd al)"
proof -
  have o: "(versionId old, old) \<in> set al" using assms(2,3) by force
  have "\<And>k u. (k, u) \<in> set al \<Longrightarrow> (k \<noteq> versionId old) = (u \<noteq> old)"
  proof -
    fix k u assume ku: "(k, u) \<in> set al"
    then have k: "k = versionId u" using assms(2) by auto
    show "(k \<noteq> versionId old) = (u \<noteq> old)"
    proof (cases "u = old")
      case True then show ?thesis using k by simp
    next
      case False
      have "k \<noteq> versionId old"
      proof
        assume "k = versionId old"
        with ku o assms(1) have "u = old" by (metis eq_key_imp_eq_value)
        with False show False ..
      qed
      with False show ?thesis by simp
    qed
  qed
  then have eqv: "\<And>p. p \<in> set al \<Longrightarrow> (versionId old \<noteq> fst p) = (snd p \<noteq> old)"
    by (metis prod.collapse)
  have "filter (\<lambda>(k', _). versionId old \<noteq> k') al = filter (\<lambda>p. snd p \<noteq> old) al"
    by (rule filter_cong) (simp_all add: case_prod_beta eqv)
  then show ?thesis by (simp add: AList.delete_eq filter_map comp_def)
qed


lemma delete_loop_single:
  "fst (snd (delete_loop env [u] prefs)) = prefs\<lparr>updates := AList.delete (versionId u) (updates prefs)\<rparr>"
proof -
  obtain r p e where d: "deleteVersionById env (versionId u) prefs = (r, p, e)"
    by (cases "deleteVersionById env (versionId u) prefs") auto
  with deleteVersionById_prefs [of env "versionId u" prefs]
  have "p = prefs\<lparr>updates := AList.delete (versionId u) (updates prefs)\<rparr>" by simp
  with d show ?thesis by (cases r) simp_all
qed

lemma delete_loop_single_result:
  "fst (delete_loop env [u] prefs) =
     (case setPreferences env (prefs\<lparr>updates := AList.delete (versionId u) (updates prefs)\<rparr>) of
        None \<Rightarrow> Inr () | Some e \<Rightarrow> Inl e)"
proof -
  obtain r p e where d: "deleteVersionById env (versionId u) prefs = (r, p, e)"
    by (cases "deleteVersionById env (versionId u) prefs") auto
  with deleteVersionById_result [of env "versionId u" prefs]
  have "r = (case setPreferences env (prefs\<lparr>updates := AList.delete (versionId u) (updates prefs)\<rparr>) of
        None \<Rightarrow> Inr True | Some e \<Rightarrow> Inl e)" by simp
  with d show ?thesis by (cases r) (auto split: option.splits)
qed

lemma cleanupVersions_no_stale:
  assumes "\<forall>u \<in> set (getStoredUpdates prefs). isUpdateForCurrentBinary prefs u"
  shows "fst (cleanupVersions env prefs) = fst (delete_loop env (updatesToDelete prefs) prefs) \<and>
         fst (snd (cleanupVersions env prefs)) = fst (snd (delete_loop env (updatesToDelete prefs) prefs))"
proof -
  have "cleanupStaleVersions env prefs = (Inr (), prefs, [])"
    unfolding cleanupStaleVersions_def using assms by (rule cleanupStale_loop_noop)
  then show ?thesis
    by (simp add: cleanupVersions_def split: prod.splits)
qed

subsection \<open>When the collaborators answer, the cleanup returns\<close>

lemma isRunningVersion_total:
  "getServerBasePath env = Inr path \<Longrightarrow> isRunningVersion env vid = Inr (str_includes path vid)"
  by (simp add: isRunningVersion_def)

lemma deleteVersionById_total:
  "\<forall>q. setPreferences env q = None \<Longrightarrow> fst (deleteVersionById env vid prefs) = Inr True"
  by (simp add: deleteVersionById_result)

lemma cleanupStale_loop_total:
  assumes "\<forall>q. setPreferences env q = None" and "getServerBasePath env = Inr path"
  shows "fst (cleanupStale_loop env us prefs) = Inr ()"
proof (induction us arbitrary: prefs)
  case Nil
  show ?case by simp
next
  case (Cons u us)
  show ?case
  proof (cases "isUpdateForCurrentBinary prefs u \<or> str_includes path (versionId u)")
    case True
    obtain r0 p0 e0 where l0: "cleanupStale_loop env us prefs = (r0, p0, e0)"
      by (cases "cleanupStale_loop env us prefs") auto
    with Cons.IH [of prefs] have "r0 = Inr ()" by simp
    with True l0 show ?thesis
      by (auto simp: isRunningVersion_total [OF assms(2)])
  next
    case False
    let ?p1 = "if isUpdateCurrentlyInstalled prefs u then prefs\<lparr>currentVersionId := None\<rparr> else prefs"
    obtain r1 p1 e1 where d: "deleteVersionById env (versionId u) ?p1 = (r1, p1, e1)"
      by (cases "deleteVersionById env (versionId u) ?p1") auto
    with deleteVersionById_total [OF assms(1), of "versionId u" ?p1] have r1: "r1 = Inr True" by simp
    obtain r2 p2 e2 where l: "cleanupStale_loop env us p1 = (r2, p2, e2)"
      by (cases "cleanupStale_loop env us p1") auto
    with Cons.IH [of p1] have r2: "r2 = Inr ()" by simp
    have "cleanupStale_loop env (u # us) prefs = (r2, p2, GetServerBasePath # e1 @ e2)"
      using False d r1 l
      by (simp add: isRunningVersion_total [OF assms(2)] Let_def)
    with r2 show ?thesis by simp
  qed
qed

lemma delete_loop_total:
  assumes "\<forall>q. setPreferences env q = None"
  shows "fst (delete_loop env us prefs) = Inr ()"
proof (induction us arbitrary: prefs)
  case Nil
  show ?case by simp
next
  case (Cons u us)
  obtain r1 p1 e1 where d: "deleteVersionById env (versionId u) prefs = (r1, p1, e1)"
    by (cases "deleteVersionById env (versionId u) prefs") auto
  with deleteVersionById_total [OF assms(1), of "versionId u" prefs] have r1: "r1 = Inr True" by simp
  obtain r2 p2 e2 where l: "delete_loop env us p1 = (r2, p2, e2)"
    by (cases "delete_loop env us p1") auto
  with Cons.IH [of p1] have r2: "r2 = Inr ()" by simp
  show ?case using d r1 l r2 by simp
qed

lemma cleanupVersions_total:
  assumes "\<forall>q. setPreferences env q = None" and "getServerBasePath env = Inr path"
  shows "fst (cleanupVersions env prefs) = Inr ()"
proof -
  obtain r1 p1 e1 where s: "cleanupStaleVersions env prefs = (r1, p1, e1)"
    by (cases "cleanupStaleVersions env prefs") auto
  have "fst (cleanupStaleVersions env prefs) = Inr ()"
    unfolding cleanupStaleVersions_def using assms by (rule cleanupStale_loop_total)
  with s have r1: "r1 = Inr ()" by simp
  obtain r2 p2 e2 where l: "delete_loop env (updatesToDelete p1) p1 = (r2, p2, e2)"
    by (cases "delete_loop env (updatesToDelete p1) p1") auto
  have "fst (delete_loop env (updatesToDelete p1) p1) = Inr ()"
    using assms(1) by (rule delete_loop_total)
  with l have "r2 = Inr ()" by simp
  with s r1 l show ?thesis by (simp add: cleanupVersions_def)
qed

subsection \<open>The two halves of reloadApp\<close>

lemma commitReady_ready:
  assumes "availableUpdate prefs = Some u" and "state u = Ready"
  shows "fst (snd (commitReady env prefs)) =
           prefs\<lparr>currentVersionId := Some (versionId u), currentBuildId := Some (buildId u),
                 availableUpdate := None\<rparr>"
  using assms by (simp add: commitReady_def Let_def split: option.splits)

lemma commitReady_not_ready:
  assumes "availableUpdate prefs = None \<or> (\<exists>u. availableUpdate prefs = Some u \<and> state u \<noteq> Ready)"
  shows "commitReady env prefs = (Inr (), prefs, [])"
  using assms by (auto simp: commitReady_def)

lemma commitReady_effects:
  "e \<in> set (snd (snd (commitReady env prefs))) \<Longrightarrow> \<exists>q. e = SavePrefs q"
  by (auto simp: commitReady_def Let_def split: option.splits if_splits)

text \<open>The branch \<^verbatim>\<open>// Are we already running the deployed version?\<close>.\<close>

lemma redirect_running:
  assumes "currentVersionId prefs = Some v" and "v \<noteq> []"
      and "isRunningVersion env v = Inr True"
      and "redirectToCurrent env prefs = (r, prefs', evs)"
  shows "r \<noteq> Inr True \<and> currentVersionId prefs' = Some v \<and>
         currentBuildId prefs' = currentBuildId prefs \<and>
         availableUpdate prefs' = availableUpdate prefs \<and>
         map_of (updates prefs') v = map_of (updates prefs) v \<and>
         (\<forall>q. SetServerBasePath q \<notin> set evs) \<and>
         (r = Inr False \<longrightarrow> FireReady \<in> set evs) \<and>
         ((\<forall>q. setPreferences env q = None) \<longrightarrow> r = Inr False)"
proof (cases "setPreferences env prefs")
  case (Some e)
  with assms show ?thesis by (auto simp: redirectToCurrent_def truthy_def)
next
  case None
  obtain rc pc ec where c: "cleanupVersions env prefs = (rc, pc, ec)"
    by (cases "cleanupVersions env prefs") auto
  note k = cleanupVersions_keeps [OF assms(1) disjI1 [OF assms(3)] c]
  obtain path where gp: "getServerBasePath env = Inr path"
    using assms(3) by (auto simp: isRunningVersion_def split: sum.splits)
  have tot: "(\<forall>q. setPreferences env q = None) \<longrightarrow> rc = Inr ()"
    using cleanupVersions_total [OF _ gp, of prefs] c by simp
  show ?thesis
  proof (cases rc)
    case (Inl e)
    with assms None c have eq: "r = Inl e" "prefs' = pc"
      "evs = [GetServerBasePath, SavePrefs prefs, FireReady, PersistServerBasePath] @ ec"
      by (auto simp: redirectToCurrent_def truthy_def)
    show ?thesis using k tot Inl unfolding eq by auto
  next
    case (Inr x)
    with assms None c have eq: "r = Inr False" "prefs' = pc"
      "evs = [GetServerBasePath, SavePrefs prefs, FireReady, PersistServerBasePath] @ ec"
      by (auto simp: redirectToCurrent_def truthy_def)
    show ?thesis using k unfolding eq by auto
  qed
qed

text \<open>Every other branch leaves the preferences alone.\<close>

lemma redirect_not_running:
  assumes "\<not> (truthy (currentVersionId prefs) \<and>
              isRunningVersion env (the (currentVersionId prefs)) = Inr True)"
      and "redirectToCurrent env prefs = (r, prefs', evs)"
  shows "prefs' = prefs \<and>
         (r = Inr True) =
           (truthy (currentVersionId prefs) \<and>
            isRunningVersion env (the (currentVersionId prefs)) = Inr False \<and>
            the (currentVersionId prefs) \<in> fst ` set (updates prefs)) \<and>
         (r = Inr True \<longrightarrow>
            evs = [GetServerBasePath,
                   SetServerBasePath (getSnapshotCacheDir env (the (currentVersionId prefs)))]) \<and>
         (r \<noteq> Inr True \<longrightarrow> (\<forall>q. SetServerBasePath q \<notin> set evs)) \<and>
         (r = Inr False \<longrightarrow> FireReady \<in> set evs) \<and>
         ((\<exists>path. getServerBasePath env = Inr path) \<longrightarrow> \<not> isl r)"
proof (cases "truthy (currentVersionId prefs)")
  case False
  then have "redirectToCurrent env prefs = (Inr False, prefs, [FireReady])"
    by (simp add: redirectToCurrent_def)
  with assms(2) have "r = Inr False" "prefs' = prefs" "evs = [FireReady]"
    by auto
  with False show ?thesis by simp
next
  case t: True
  let ?cur = "the (currentVersionId prefs)"
  show ?thesis
  proof (cases "isRunningVersion env ?cur")
    case (Inl e)
    have "redirectToCurrent env prefs = (Inl e, prefs, [GetServerBasePath])"
      using t Inl by (simp add: redirectToCurrent_def)
    with assms(2) have eq: "r = Inl e" "prefs' = prefs" "evs = [GetServerBasePath]"
      by auto
    have "\<not> (\<exists>path. getServerBasePath env = Inr path)"
      using Inl by (auto simp: isRunningVersion_def)
    with Inl show ?thesis unfolding eq by simp
  next
    case (Inr b)
    with t assms(1) have b: "b = False" by simp
    show ?thesis
    proof (cases "?cur \<in> fst ` set (updates prefs)")
      case True
      have "redirectToCurrent env prefs =
          (Inr True, prefs, [GetServerBasePath, SetServerBasePath (getSnapshotCacheDir env ?cur)])"
        using t Inr b True by (simp add: redirectToCurrent_def)
      with assms(2) have eq: "r = Inr True" "prefs' = prefs"
        "evs = [GetServerBasePath, SetServerBasePath (getSnapshotCacheDir env ?cur)]"
        by auto
      show ?thesis using t Inr b True unfolding eq by simp
    next
      case False
      have "redirectToCurrent env prefs =
          (Inr False, prefs, [GetServerBasePath, ConsoleError (''Missing version '' @ ?cur), FireReady])"
        using t Inr b False by (simp add: redirectToCurrent_def)
      with assms(2) have eq: "r = Inr False" "prefs' = prefs"
        "evs = [GetServerBasePath, ConsoleError (''Missing version '' @ ?cur), FireReady]"
        by auto
      show ?thesis using t Inr b False unfolding eq by simp
    qed
  qed
qed

lemma redirect_keeps:
  assumes "redirectToCurrent env prefs = (r, prefs', evs)"
  shows "currentVersionId prefs' = currentVersionId prefs \<and>
         currentBuildId prefs' = currentBuildId prefs \<and>
         availableUpdate prefs' = availableUpdate prefs \<and>
         (\<forall>v. currentVersionId prefs = Some v \<longrightarrow>
              map_of (updates prefs') v = map_of (updates prefs) v)"
proof (cases "truthy (currentVersionId prefs) \<and>
              isRunningVersion env (the (currentVersionId prefs)) = Inr True")
  case True
  then obtain v where v: "currentVersionId prefs = Some v" "v \<noteq> []"
    by (auto simp: truthy_def split: option.splits)
  with True have "isRunningVersion env v = Inr True" by simp
  from redirect_running [OF v this assms] v show ?thesis by simp
next
  case False
  from redirect_not_running [OF False assms] show ?thesis by simp
qed

lemma reloadApp_split:
  assumes "reloadApp env prefs = (r, prefs', evs)"
      and "commitReady env prefs = (rc, pc, ec)"
  shows "(\<exists>e. rc = Inl e \<and> r = Inl e \<and> prefs' = pc \<and> evs = ec) \<or>
         (rc = Inr () \<and> (\<exists>ev. redirectToCurrent env pc = (r, prefs', ev) \<and> evs = ec @ ev))"
proof (cases rc)
  case (Inl e)
  with assms show ?thesis by (auto simp: reloadApp_def)
next
  case (Inr x)
  obtain r2 p2 e2 where d: "redirectToCurrent env pc = (r2, p2, e2)"
    by (cases "redirectToCurrent env pc") auto
  with Inr assms show ?thesis by (auto simp: reloadApp_def)
qed

lemma commitReady_total:
  "\<forall>q. setPreferences env q = None \<Longrightarrow> fst (commitReady env prefs) = Inr ()"
  by (simp add: commitReady_def Let_def split: option.splits)

subsection \<open>Diffing against an empty directory\<close>

lemma reconcile_no_files: "reconcile progress t [] rows acc = (rows, acc, [])"
  by (induction rows arbitrary: acc) simp_all

lemma walk_empty_directory:
  assumes "FileManager_getDirectoryFiles env filePath = Inr []"
  shows "recursiveFilesInPath (Suc n) env filePath [] [] = Some (Inr [], [GetDirectoryFiles filePath])"
  using assms
  by (simp add: walk_fullPath_def walk_filePrefix_def walk_files_def walk_folders_def with_effect_def)

subsection \<open>The download loop when every transfer succeeds\<close>

lemma quiet_batch_progress:
  "batch_progress progress t files acc = (acc', evs) \<Longrightarrow> quiet evs"
proof (induction files arbitrary: acc acc' evs)
  case Nil
  then show ?case by (simp add: quiet_def)
next
  case (Cons f0 files)
  obtain a e where b: "batch_progress progress t files (acc + size f0) = (a, e)"
    by (cases "batch_progress progress t files (acc + size f0)") auto
  from Cons.IH [OF b] have "quiet e" .
  moreover from b Cons.prems
  have "evs = (if progress then [Progress (acc + size f0) t] else []) @ e" by auto
  ultimately show ?case by (auto simp: quiet_def)
qed

lemma awaited_quiet: "quiet evs \<Longrightarrow> awaited (evs @ rest) = awaited rest"
  by (induction evs) (auto simp: quiet_def)

lemma in_flight_quiet: "quiet evs \<Longrightarrow> in_flight_ok k (evs @ rest) = in_flight_ok k rest"
  by (induction evs) (auto simp: quiet_def)

lemma started_quiet: "quiet evs \<Longrightarrow> started (evs @ rest) = started rest"
  by (induction evs) (auto simp: quiet_def)

lemma map_filter_all_None: "\<forall>x \<in> set xs. f x = None \<Longrightarrow> List.map_filter f xs = []"
  by (simp add: List.map_filter_def filter_empty_conv)

lemma awaitAll_ok:
  assumes "\<forall>f \<in> set downloads.
             FileManager_downloadAndWriteFile env (file_url env baseUrl f) (file_target env vid f) = None"
  shows "\<exists>acc' pe. awaitAll env baseUrl vid progress t downloads acc
                     = (Inr acc', pe @ [AwaitAll (length downloads)]) \<and> quiet pe"
proof -
  obtain acc' pe where b: "batch_progress progress t downloads acc = (acc', pe)"
    by (cases "batch_progress progress t downloads acc") auto
  have q: "quiet pe" using b by (rule quiet_batch_progress)
  have "awaitAll env baseUrl vid progress t downloads acc
          = (Inr acc', pe @ [AwaitAll (length downloads)])"
    by (simp add: awaitAll_def map_filter_all_None [OF assms] b)
  with q show ?thesis by blast
qed

lemma download_loop_ok:
  assumes "\<forall>f \<in> set entries \<union> set downloads.
             FileManager_downloadAndWriteFile env (file_url env baseUrl f) (file_target env vid f) = None"
      and "length downloads \<le> maxBatch"
      and "download_loop env baseUrl vid progress t n entries downloads count acc = (r, evs)"
  shows "r = Inr () \<and> in_flight_ok (length downloads) evs \<and>
         length (awaited evs) = (length downloads + length entries + 19) div 20 \<and>
         (\<forall>k \<in> set (awaited evs). k \<le> maxBatch) \<and>
         sum_list (awaited evs) = length downloads + length entries \<and>
         started evs = map (\<lambda>f. (file_url env baseUrl f, file_target env vid f)) entries"
  using assms
proof (induction entries arbitrary: downloads count acc r evs)
  case Nil
  show ?case
  proof (cases "downloads = []")
    case True
    with Nil.prems(3) show ?thesis by simp
  next
    case False
    from Nil.prems(1) obtain acc' pe where
      a: "awaitAll env baseUrl vid progress t downloads acc = (Inr acc', pe @ [AwaitAll (length downloads)])"
      and q: "quiet pe"
      using awaitAll_ok [of downloads env baseUrl vid progress t acc] by auto
    have "download_loop env baseUrl vid progress t n [] downloads count acc =
            (Inr (), pe @ [AwaitAll (length downloads), TimerDiff (count + 1) (numberBatches n)])"
      using False a by simp
    with Nil.prems(3) have eq: "r = Inr ()"
      "evs = pe @ [AwaitAll (length downloads), TimerDiff (count + 1) (numberBatches n)]"
      by auto
    have l: "0 < length downloads" using False by simp
    have d: "(length downloads + 19) div 20 = Suc 0"
      using l Nil.prems(2) unfolding maxBatch_def by presburger
    show ?thesis unfolding eq
      using Nil.prems(2) by (simp add: awaited_quiet [OF q] in_flight_quiet [OF q]
          started_quiet [OF q] d)
  qed
next
  case (Cons entry rest)
  show ?case
  proof (cases "length downloads \<ge> maxBatch")
    case True
    with Cons.prems(2) have len: "length downloads = 20" by (simp add: maxBatch_def)
    from Cons.prems(1) obtain acc' pe where
      a: "awaitAll env baseUrl vid progress t downloads acc = (Inr acc', pe @ [AwaitAll (length downloads)])"
      and q: "quiet pe"
      using awaitAll_ok [of downloads env baseUrl vid progress t acc] by auto
    obtain r' evs' where l:
      "download_loop env baseUrl vid progress t n rest [entry] (count + 1) acc' = (r', evs')"
      by (cases "download_loop env baseUrl vid progress t n rest [entry] (count + 1) acc'") auto
    have "download_loop env baseUrl vid progress t n (entry # rest) downloads count acc =
            (r', (pe @ [AwaitAll (length downloads)]) @
               [TimerDiff (count + 1) (numberBatches n), Sleep,
                DownloadFile (file_url env baseUrl entry) (file_target env vid entry)] @ evs')"
      using True a l by simp
    with Cons.prems(3) have eq: "r = r'"
      "evs = pe @ [AwaitAll (length downloads)] @
               [TimerDiff (count + 1) (numberBatches n), Sleep,
                DownloadFile (file_url env baseUrl entry) (file_target env vid entry)] @ evs'"
      by auto
    have ok: "\<forall>f \<in> set rest \<union> set [entry].
             FileManager_downloadAndWriteFile env (file_url env baseUrl f) (file_target env vid f) = None"
      using Cons.prems(1) by simp
    have one: "length [entry] \<le> maxBatch" by (simp add: maxBatch_def)
    have d: "(20 + length (entry # rest) + 19) div 20 = Suc ((length [entry] + length rest + 19) div 20)"
      by simp
    from Cons.IH [OF ok one l] show ?thesis unfolding eq
      using d by (simp add: awaited_quiet [OF q] in_flight_quiet [OF q] started_quiet [OF q] len maxBatch_def)
  next
    case False
    then have len: "length downloads < 20" by (simp add: maxBatch_def)
    obtain r' evs' where l:
      "download_loop env baseUrl vid progress t n rest (downloads @ [entry]) count acc = (r', evs')"
      by (cases "download_loop env baseUrl vid progress t n rest (downloads @ [entry]) count acc") auto
    have "download_loop env baseUrl vid progress t n (entry # rest) downloads count acc =
            (r', DownloadFile (file_url env baseUrl entry) (file_target env vid entry) # evs')"
      using False l by simp
    with Cons.prems(3) have eq: "r = r'"
      "evs = DownloadFile (file_url env baseUrl entry) (file_target env vid entry) # evs'"
      by auto
    have ok: "\<forall>f \<in> set rest \<union> set (downloads @ [entry]).
             FileManager_downloadAndWriteFile env (file_url env baseUrl f) (file_target env vid f) = None"
      using Cons.prems(1) by auto
    have one: "length (downloads @ [entry]) \<le> maxBatch" using len by (simp add: maxBatch_def)
    from Cons.IH [OF ok one l] show ?thesis unfolding eq
      using len by (simp add: maxBatch_def)
  qed
qed

subsection \<open>One call moves the state by at most one step\<close>

lemma phase_cong: "availableUpdate p' = availableUpdate p \<Longrightarrow> phase p' = phase p"
  by (simp add: phase_def)

lemma downloadAvailable_prefs:
  assumes "downloadAvailable fuel env progress prefs au resp cm = Some (r, prefs', evs)"
  shows "prefs' = prefs \<or> prefs' = prefs\<lparr>availableUpdate := Some (au\<lparr>state := Pending\<rparr>)\<rparr>"
proof -
  let ?path = "getSnapshotCacheDir env (versionId au)"
  let ?t = "sum_list (map size (manifestJson resp))"
  obtain d evs2 where d: "diffManifests fuel env (manifestJson resp) cm ?path ?t progress = Some (d, evs2)"
    using assms by (cases "diffManifests fuel env (manifestJson resp) cm ?path ?t progress")
      (auto simp: downloadAvailable_def Let_def)
  obtain r4 evs4 where p: "prepareUpdateDirectory env (versionId au) (currentVersionId prefs)
                        (sameManifest d) (downloaded d) ?t progress = (r4, evs4)"
    by (cases "prepareUpdateDirectory env (versionId au) (currentVersionId prefs)
                        (sameManifest d) (downloaded d) ?t progress") auto
  show ?thesis
  proof (cases r4)
    case (Inl e)
    with assms d p show ?thesis by (auto simp: downloadAvailable_def Let_def)
  next
    case (Inr downloaded1)
    obtain r5 evs5 where f: "downloadFilesFromManifest env (fileBaseUrl resp) (diffManifest d)
                             (versionId au) downloaded1 ?t progress = (r5, evs5)"
      by (cases "downloadFilesFromManifest env (fileBaseUrl resp) (diffManifest d)
                             (versionId au) downloaded1 ?t progress") auto
    show ?thesis
    proof (cases r5)
      case (Inl e)
      with assms d p Inr f show ?thesis by (auto simp: downloadAvailable_def Let_def)
    next
      case r5: (Inr x)
      with assms d p Inr f show ?thesis
        by (auto simp: downloadAvailable_def Let_def split: option.splits)
    qed
  qed
qed

lemma downloadUpdate_phase:
  assumes "downloadUpdate fuel env progress prefs = Some (r, prefs', evs)"
  shows "phase prefs' = phase prefs \<or> phase prefs' = Suc (phase prefs)"
proof (cases "\<exists>au. availableUpdate prefs = Some au \<and> state au = Available")
  case False
  then have "availableUpdate prefs = None \<or>
           (\<exists>u. availableUpdate prefs = Some u \<and> state u \<noteq> Available)"
    by (cases "availableUpdate prefs") auto
  then have "downloadUpdate fuel env progress prefs = Some (Inr False, prefs, [])"
    by (auto simp: downloadUpdate_def)
  with assms show ?thesis by simp
next
  case True
  then obtain au where au: "availableUpdate prefs = Some au" "state au = Available" by blast
  then have ph: "phase prefs = 0" by (simp add: phase_def)
  show ?thesis
  proof (cases "fetch_json env (url au)")
    case (Inl e)
    with au assms show ?thesis by (auto simp: downloadUpdate_def)
  next
    case (Inr resp)
    obtain cm evs1 where c: "fetchCurrentManifest env prefs au = (cm, evs1)"
      by (cases "fetchCurrentManifest env prefs au") auto
    from au Inr c assms obtain r0 evs0 where
      "downloadAvailable fuel env progress prefs au resp cm = Some (r0, prefs', evs0)"
      by (auto simp: downloadUpdate_def split: option.splits)
    from downloadAvailable_prefs [OF this] show ?thesis
      by (auto simp: phase_def ph [unfolded phase_def] au)
  qed
qed

lemma extractUpdate_phase:
  "phase (fst (snd (extractUpdate env progress prefs))) = phase prefs \<or>
   phase (fst (snd (extractUpdate env progress prefs))) = Suc (phase prefs)"
  by (auto simp: extractUpdate_def phase_def Let_def split: option.splits UpdateState.splits)

lemma commitReady_phase:
  "phase (fst (snd (commitReady env prefs))) = phase prefs \<or>
   phase (fst (snd (commitReady env prefs))) = Suc (phase prefs)"
  by (auto simp: commitReady_def phase_def Let_def split: option.splits UpdateState.splits)

lemma reloadApp_phase:
  "phase (fst (snd (reloadApp env prefs))) = phase prefs \<or>
   phase (fst (snd (reloadApp env prefs))) = Suc (phase prefs)"
proof -
  obtain r p' evs where a: "reloadApp env prefs = (r, p', evs)"
    by (cases "reloadApp env prefs") auto
  obtain rc pc ec where c: "commitReady env prefs = (rc, pc, ec)"
    by (cases "commitReady env prefs") auto
  have "phase p' = phase pc"
    using reloadApp_split [OF a c]
  proof
    assume "\<exists>e. rc = Inl e \<and> r = Inl e \<and> p' = pc \<and> evs = ec"
    then show ?thesis by auto
  next
    assume "rc = Inr () \<and> (\<exists>ev. redirectToCurrent env pc = (r, p', ev) \<and> evs = ec @ ev)"
    then obtain ev where "redirectToCurrent env pc = (r, p', ev)" by blast
    from redirect_keeps [OF this] have "availableUpdate p' = availableUpdate pc" by simp
    then show ?thesis by (rule phase_cong)
  qed
  with commitReady_phase [of env prefs] a c show ?thesis by simp
qed

lemma step_phase:
  assumes "call_op c \<noteq> CheckForUpdate" and "step c prefs = Some prefs'"
  shows "phase prefs' = phase prefs \<or> phase prefs' = Suc (phase prefs)"
proof (cases "call_op c")
  case CheckForUpdate
  with assms(1) show ?thesis by simp
next
  case DownloadUpdate
  with assms(2) obtain r evs where
    "downloadUpdate (call_fuel c) (call_env c) (call_progress c) prefs = Some (r, prefs', evs)"
    by (auto simp: step_def)
  then show ?thesis by (rule downloadUpdate_phase)
next
  case ExtractUpdate
  with assms(2) extractUpdate_phase [of "call_env c" "call_progress c" prefs]
  show ?thesis by (auto simp: step_def)
next
  case ReloadApp
  with assms(2) reloadApp_phase [of "call_env c" prefs]
  show ?thesis by (auto simp: step_def)
qed

lemma run_states_hd: "run_states cs prefs \<noteq> [] \<and> hd (run_states cs prefs) = prefs"
  by (cases cs) simp_all

lemma checkForUpdate_phase:
  "availableUpdate (fst (snd (checkForUpdate env prefs))) = availableUpdate prefs \<or>
   phase (fst (snd (checkForUpdate env prefs))) = 0"
  by (auto simp: checkForUpdate_def phase_def Let_def split: sum.splits option.splits)

text \<open>
  The bytes of the files taken over from the baseline are counted when they are copied:
  when the copies succeed, \<^verbatim>\<open>_copyCurrentAppDir\<close> returns the count it was given plus
  the sizes of its manifest.
\<close>

lemma copyCurrentAppDir_adds_sizes:
  assumes "\<forall>source target. FileManager_copyFiles env source target = None"
  shows "fst (copyCurrentAppDir env folderToCopyFrom vid ms acc totalSize progress)
           = Inr (acc + sum_list (map size ms))"
proof (induction ms arbitrary: acc)
  case Nil
  show ?case by simp
next
  case (Cons m ms)
  obtain r evs where c:
    "copyCurrentAppDir env folderToCopyFrom vid ms (acc + size m) totalSize progress = (r, evs)"
    by (cases "copyCurrentAppDir env folderToCopyFrom vid ms (acc + size m) totalSize progress") auto
  with Cons.IH [of "acc + size m"] have "r = Inr (acc + size m + sum_list (map size ms))" by simp
  with c assms show ?case by (simp add: Let_def add.assoc)
qed

subsection \<open>Which directories the cleanup removes\<close>






text \<open>
  \<^verbatim>\<open>cleanupVersions\<close> is private and has one caller, \<^verbatim>\<open>reloadApp\<close>, in the branch where
  the webview serves \<^verbatim>\<open>currentVersionId\<close>: a directory is removed during \<^verbatim>\<open>reloadApp\<close>
  only in that situation.
\<close>

lemma redirect_not_running_removes:
  assumes "\<not> (truthy (currentVersionId prefs) \<and>
              isRunningVersion env (the (currentVersionId prefs)) = Inr True)"
      and "redirectToCurrent env prefs = (r, prefs', evs)"
  shows "Remove p \<notin> set evs"
proof (cases "truthy (currentVersionId prefs)")
  case False
  then have "redirectToCurrent env prefs = (Inr False, prefs, [FireReady])"
    by (simp add: redirectToCurrent_def)
  with assms(2) have "evs = [FireReady]" by auto
  then show ?thesis by simp
next
  case t: True
  let ?cur = "the (currentVersionId prefs)"
  show ?thesis
  proof (cases "isRunningVersion env ?cur")
    case (Inl e)
    have "redirectToCurrent env prefs = (Inl e, prefs, [GetServerBasePath])"
      using t Inl by (simp add: redirectToCurrent_def)
    with assms(2) have "evs = [GetServerBasePath]" by auto
    then show ?thesis by simp
  next
    case (Inr b)
    with t assms(1) have b: "b = False" by simp
    show ?thesis
    proof (cases "?cur \<in> fst ` set (updates prefs)")
      case True
      have "redirectToCurrent env prefs =
          (Inr True, prefs, [GetServerBasePath, SetServerBasePath (getSnapshotCacheDir env ?cur)])"
        using t Inr b True by (simp add: redirectToCurrent_def)
      with assms(2)
      have "evs = [GetServerBasePath, SetServerBasePath (getSnapshotCacheDir env ?cur)]" by auto
      then show ?thesis by simp
    next
      case False
      have "redirectToCurrent env prefs =
          (Inr False, prefs, [GetServerBasePath, ConsoleError (''Missing version '' @ ?cur), FireReady])"
        using t Inr b False by (simp add: redirectToCurrent_def)
      with assms(2)
      have "evs = [GetServerBasePath, ConsoleError (''Missing version '' @ ?cur), FireReady]" by auto
      then show ?thesis by simp
    qed
  qed
qed

lemma reloadApp_removes_only_when_served:
  assumes "reloadApp env prefs = (r, prefs', evs)"
      and "commitReady env prefs = (rc, pc, ec)"
      and "Remove p \<in> set evs"
  shows "truthy (currentVersionId pc) \<and>
         isRunningVersion env (the (currentVersionId pc)) = Inr True"
proof -
  have ec: "Remove p \<notin> set ec"
    using commitReady_effects [of "Remove p" env prefs] assms(2) by auto
  from reloadApp_split [OF assms(1,2)] show ?thesis
  proof
    assume "\<exists>e. rc = Inl e \<and> r = Inl e \<and> prefs' = pc \<and> evs = ec"
    with ec assms(3) show ?thesis by auto
  next
    assume "rc = Inr () \<and> (\<exists>ev. redirectToCurrent env pc = (r, prefs', ev) \<and> evs = ec @ ev)"
    then obtain ev where rd: "redirectToCurrent env pc = (r, prefs', ev)" and evs: "evs = ec @ ev"
      by blast
    with ec assms(3) have "Remove p \<in> set ev" by simp
    with redirect_not_running_removes [OF _ rd, of p] show ?thesis by blast
  qed
qed

subsection \<open>The trace of a single eviction\<close>

lemma removed_cleanSnapshotDir:
  "removed (cleanSnapshotDir env vid) = [getSnapshotCacheDir env vid]"
  by (simp add: cleanSnapshotDir_def Let_def split: option.splits)

lemma delete_loop_single_removed:
  assumes "setPreferences env (prefs\<lparr>updates := AList.delete (versionId u) (updates prefs)\<rparr>) = None"
  shows "removed (snd (snd (delete_loop env [u] prefs))) = [getSnapshotCacheDir env (versionId u)]"
  using assms by (simp add: deleteVersionById_def Let_def removed_cleanSnapshotDir)

lemma cleanupVersions_no_stale_trace:
  assumes "\<forall>u \<in> set (getStoredUpdates prefs). isUpdateForCurrentBinary prefs u"
  shows "snd (snd (cleanupVersions env prefs)) = snd (snd (delete_loop env (updatesToDelete prefs) prefs))"
proof -
  have "cleanupStaleVersions env prefs = (Inr (), prefs, [])"
    unfolding cleanupStaleVersions_def using assms by (rule cleanupStale_loop_noop)
  then show ?thesis
    by (simp add: cleanupVersions_def split: prod.splits)
qed

section \<open>Claims about the version lifecycle\<close>

text \<open>
  Claim C9, as the code has it. \<^verbatim>\<open>deleteVersionById\<close> never changes
  \<^verbatim>\<open>currentVersionId\<close>, also when the deleted version is the current one. It returns
  true for every versionId, with or without an entry in \<^verbatim>\<open>updates\<close>, exactly when the
  save of the preferences succeeds; a rejected save is rethrown. The removal of the
  directory plays no part: \<^verbatim>\<open>_cleanSnapshotDir\<close> catches its failure.
\<close>

theorem deleteVersionById_true_when_saved:
  "currentVersionId (fst (snd (deleteVersionById env vid prefs))) = currentVersionId prefs \<and>
   (setPreferences env (prefs\<lparr>updates := AList.delete vid (updates prefs)\<rparr>) = None \<longrightarrow>
      fst (deleteVersionById env vid prefs) = Inr True) \<and>
   (\<forall>e. setPreferences env (prefs\<lparr>updates := AList.delete vid (updates prefs)\<rparr>) = Some e \<longrightarrow>
      fst (deleteVersionById env vid prefs) = Inl e)"
  by (simp add: deleteVersionById_prefs deleteVersionById_result)

text \<open>
  The theorem at work: the removal fails, the save succeeds, v1 is the current version.
  The call returns true and v1 stays the current version.
\<close>

theorem deleteVersionById_true_when_saved_witness:
  "setPreferences env_remove_rejects
     (prefs_current_v1\<lparr>updates := AList.delete ''v1'' (updates prefs_current_v1)\<rparr>) = None \<and>
   FileManager_remove env_remove_rejects (getSnapshotCacheDir env_remove_rejects ''v1'')
     = Some (Error ''ENOENT'') \<and>
   fst (deleteVersionById env_remove_rejects ''v1'' prefs_current_v1) = Inr True \<and>
   currentVersionId (fst (snd (deleteVersionById env_remove_rejects ''v1'' prefs_current_v1)))
     = Some ''v1''"
proof -
  have s: "setPreferences env_remove_rejects
     (prefs_current_v1\<lparr>updates := AList.delete ''v1'' (updates prefs_current_v1)\<rparr>) = None"
    by (simp add: env_remove_rejects_def env_ok_def)
  have r: "FileManager_remove env_remove_rejects (getSnapshotCacheDir env_remove_rejects ''v1'')
     = Some (Error ''ENOENT'')"
    by (simp add: env_remove_rejects_def env_ok_def)
  have c: "currentVersionId prefs_current_v1 = Some ''v1''"
    by (simp add: prefs_current_v1_def)
  show ?thesis
    using deleteVersionById_true_when_saved [of env_remove_rejects "''v1''" prefs_current_v1] s r c
    by simp
qed

text \<open>
  Claim C9 as stated fails: here the removal of the directory does not throw, and yet the
  call does not return true, because the save of the preferences is rejected.
\<close>

theorem deleteVersionById_save_rejected_counterexample:
  "FileManager_remove env_save_rejects (getSnapshotCacheDir env_save_rejects ''v1'') = None \<and>
   fst (deleteVersionById env_save_rejects ''v1'' prefs_current_v1) \<noteq> Inr True \<and>
   fst (deleteVersionById env_save_rejects ''v1'' prefs_current_v1) = Inl (Error ''rejected'')"
  by (simp add: deleteVersionById_result env_save_rejects_def env_ok_def)



text \<open>
  Claim C7. The preferences are well formed (the keys of \<^verbatim>\<open>updates\<close> are distinct and
  each is the versionId of its record, every \<^verbatim>\<open>lastUsed\<close> is an ISO timestamp), no
  installed update is of another binary, \<^verbatim>\<open>maxVersions\<close> is 2, and exactly three
  installed updates are not the current version, with pairwise distinct \<^verbatim>\<open>lastUsed\<close>;
  \<open>old\<close> is the least recently used of the three. Then \<^verbatim>\<open>cleanupVersions\<close> leaves in
  \<^verbatim>\<open>updates\<close> every record but \<open>old\<close>: the two most recently used of the three and
  the current version. The current version stays current. When the save succeeds the
  call returns normally and the one directory it removes is the snapshot directory of
  \<open>old\<close>.
\<close>

theorem cleanupVersions_evicts_oldest_of_three:
  assumes "distinct (map fst (updates prefs))"
      and "\<forall>(k, u) \<in> set (updates prefs). k = versionId u"
      and "\<forall>u \<in> set (getStoredUpdates prefs). isISOString (lastUsed u)"
      and "\<forall>u \<in> set (getStoredUpdates prefs). isUpdateForCurrentBinary prefs u"
      and "maxVersions prefs = 2"
      and "length (filter (\<lambda>a. \<not> isUpdateCurrentlyInstalled prefs a) (getStoredUpdates prefs)) = 3"
      and "distinct (map lastUsed
             (filter (\<lambda>a. \<not> isUpdateCurrentlyInstalled prefs a) (getStoredUpdates prefs)))"
      and "old \<in> set (getStoredUpdates prefs)"
      and "\<not> isUpdateCurrentlyInstalled prefs old"
      and "\<forall>u \<in> set (getStoredUpdates prefs).
             \<not> isUpdateCurrentlyInstalled prefs u \<longrightarrow> lastUsed old \<le> lastUsed u"
  shows "getStoredUpdates (fst (snd (cleanupVersions env prefs)))
           = filter (\<lambda>u. u \<noteq> old) (getStoredUpdates prefs) \<and>
         currentVersionId (fst (snd (cleanupVersions env prefs))) = currentVersionId prefs \<and>
         (setPreferences env (prefs\<lparr>updates := AList.delete (versionId old) (updates prefs)\<rparr>) = None
            \<longrightarrow> fst (cleanupVersions env prefs) = Inr () \<and>
                removed (snd (snd (cleanupVersions env prefs)))
                  = [getSnapshotCacheDir env (versionId old)])"
proof -
  let ?na = "filter (\<lambda>a. \<not> isUpdateCurrentlyInstalled prefs a) (getStoredUpdates prefs)"
  have o: "old \<in> set ?na" using assms(8,9) by simp
  have m: "\<forall>x \<in> set ?na. lastUsed old \<le> lastUsed x" using assms(10) by simp
  have "drop 2 (rev (sort_key lastUsed ?na)) = [old]"
    using assms(6,7) o m by (rule drop2_rev_sort3)
  then have d: "updatesToDelete prefs = [old]"
    by (simp add: updatesToDelete_def slice_from_def assms(5))
  note c = cleanupVersions_no_stale [OF assms(4), of env, unfolded d]
  note t = cleanupVersions_no_stale_trace [OF assms(4), of env, unfolded d]
  have p: "fst (snd (cleanupVersions env prefs))
             = prefs\<lparr>updates := AList.delete (versionId old) (updates prefs)\<rparr>"
    using c delete_loop_single [of env old prefs] by simp
  have s: "old \<in> snd ` set (updates prefs)" using assms(8) by (simp add: getStoredUpdates_def)
  have "getStoredUpdates (fst (snd (cleanupVersions env prefs)))
           = filter (\<lambda>u. u \<noteq> old) (getStoredUpdates prefs)"
    unfolding p getStoredUpdates_def using stored_after_delete [OF assms(1,2) s] by simp
  moreover have "currentVersionId (fst (snd (cleanupVersions env prefs))) = currentVersionId prefs"
    unfolding p by simp
  moreover have "setPreferences env (prefs\<lparr>updates := AList.delete (versionId old) (updates prefs)\<rparr>) = None
            \<longrightarrow> fst (cleanupVersions env prefs) = Inr () \<and>
                removed (snd (snd (cleanupVersions env prefs)))
                  = [getSnapshotCacheDir env (versionId old)]"
    using c t delete_loop_single_result [of env old prefs] delete_loop_single_removed [where env = env and prefs = prefs and u = old]
    by simp
  ultimately show ?thesis by blast
qed

text \<open>
  The theorem at work: v1 is current, v3, v2 and v4 are not; v2 is the least recently used
  of the three, and only its entry and its directory are removed.
\<close>

theorem cleanupVersions_evicts_oldest_of_three_witness:
  "maxVersions prefs_four = 2 \<and>
   map versionId (filter (\<lambda>a. \<not> isUpdateCurrentlyInstalled prefs_four a) (getStoredUpdates prefs_four))
     = [''v3'', ''v2'', ''v4''] \<and>
   map versionId (getStoredUpdates (fst (snd (cleanupVersions env_ok prefs_four))))
     = [''v3'', ''v1'', ''v4''] \<and>
   fst (cleanupVersions env_ok prefs_four) = Inr () \<and>
   removed (snd (snd (cleanupVersions env_ok prefs_four))) = [''/data/ionic_built_snapshots/v2'']"
proof -
  let ?old = "update_of ''v2'' ''2'' Ready ''2024-02-01T10:00:00.000Z''"
  have 1: "distinct (map fst (updates prefs_four))" by code_simp
  have 2: "\<forall>(k, u) \<in> set (updates prefs_four). k = versionId u" by code_simp
  have i: "\<forall>u \<in> set (getStoredUpdates prefs_four). isISOString (lastUsed u)" by code_simp
  have 3: "\<forall>u \<in> set (getStoredUpdates prefs_four). isUpdateForCurrentBinary prefs_four u"
    by code_simp
  have 4: "maxVersions prefs_four = 2" by code_simp
  have 5: "length (filter (\<lambda>a. \<not> isUpdateCurrentlyInstalled prefs_four a)
              (getStoredUpdates prefs_four)) = 3" by code_simp
  have 6: "distinct (map lastUsed
             (filter (\<lambda>a. \<not> isUpdateCurrentlyInstalled prefs_four a) (getStoredUpdates prefs_four)))"
    by code_simp
  have 7: "?old \<in> set (getStoredUpdates prefs_four)" by code_simp
  have 8: "\<not> isUpdateCurrentlyInstalled prefs_four ?old" by code_simp
  have 9: "\<forall>u \<in> set (getStoredUpdates prefs_four).
             \<not> isUpdateCurrentlyInstalled prefs_four u \<longrightarrow> lastUsed ?old \<le> lastUsed u"
    by code_simp
  have s: "setPreferences env_ok
             (prefs_four\<lparr>updates := AList.delete (versionId ?old) (updates prefs_four)\<rparr>) = None"
    by (simp add: env_ok_def)
  have na: "map versionId (filter (\<lambda>a. \<not> isUpdateCurrentlyInstalled prefs_four a)
              (getStoredUpdates prefs_four)) = [''v3'', ''v2'', ''v4'']" by code_simp
  have f: "map versionId (filter (\<lambda>u. u \<noteq> ?old) (getStoredUpdates prefs_four))
             = [''v3'', ''v1'', ''v4'']" by code_simp
  have dir: "getSnapshotCacheDir env_ok (versionId ?old) = ''/data/ionic_built_snapshots/v2''"
    by code_simp
  from cleanupVersions_evicts_oldest_of_three [OF 1 2 i 3 4 5 6 7 8 9, of env_ok] s f 4 na dir
  show ?thesis by simp
qed

text \<open>
  Claim C4, as the code has it. \<^verbatim>\<open>availableUpdate\<close> is the record \<open>u\<close> in state
  \<open>Ready\<close>, and \<^verbatim>\<open>updates\<close> holds \<open>u\<close> under its versionId, as \<^verbatim>\<open>extractUpdate\<close>
  left it. After \<^verbatim>\<open>reloadApp\<close> (also when it throws after the commit)
  \<^verbatim>\<open>currentVersionId\<close> and \<^verbatim>\<open>currentBuildId\<close> are those of \<open>u\<close>,
  \<^verbatim>\<open>availableUpdate\<close> is cleared and \<^verbatim>\<open>updates\<close> still holds \<open>u\<close>. A second
  \<^verbatim>\<open>reloadApp\<close>, met by a webview that serves the version, never returns true and never
  redirects, returns false when the saves succeed, and changes none of the four.
  \<^verbatim>\<open>reloadApp\<close> itself never writes \<^verbatim>\<open>updates\<close>.
\<close>

theorem reloadApp_commits_once:
  assumes "availableUpdate prefs = Some u" and "state u = Ready"
      and "map_of (updates prefs) (versionId u) = Some u"
      and "reloadApp env prefs = (r, prefs', evs)"
  shows "currentVersionId prefs' = Some (versionId u) \<and>
         currentBuildId prefs' = Some (buildId u) \<and>
         availableUpdate prefs' = None \<and>
         map_of (updates prefs') (versionId u) = Some u \<and>
         (\<forall>env2 r2 prefs2 evs2.
            isRunningVersion env2 (versionId u) = Inr True \<and>
            reloadApp env2 prefs' = (r2, prefs2, evs2) \<longrightarrow>
              r2 \<noteq> Inr True \<and>
              ((\<forall>q. setPreferences env2 q = None) \<longrightarrow> r2 = Inr False) \<and>
              currentVersionId prefs2 = Some (versionId u) \<and>
              currentBuildId prefs2 = Some (buildId u) \<and>
              availableUpdate prefs2 = None \<and>
              map_of (updates prefs2) (versionId u) = Some u \<and>
              (\<forall>q. SetServerBasePath q \<notin> set evs2))"
proof -
  let ?pc = "prefs\<lparr>currentVersionId := Some (versionId u), currentBuildId := Some (buildId u),
                    availableUpdate := None\<rparr>"
  obtain rc pc ec where c: "commitReady env prefs = (rc, pc, ec)"
    by (cases "commitReady env prefs") auto
  with commitReady_ready [OF assms(1,2), of env] have pc: "pc = ?pc" by simp
  have first: "currentVersionId prefs' = Some (versionId u) \<and>
         currentBuildId prefs' = Some (buildId u) \<and>
         availableUpdate prefs' = None \<and>
         map_of (updates prefs') (versionId u) = Some u"
    using reloadApp_split [OF assms(4) c]
  proof
    assume "\<exists>e. rc = Inl e \<and> r = Inl e \<and> prefs' = pc \<and> evs = ec"
    then show ?thesis using pc assms(3) by auto
  next
    assume "rc = Inr () \<and> (\<exists>ev. redirectToCurrent env pc = (r, prefs', ev) \<and> evs = ec @ ev)"
    then obtain ev where "redirectToCurrent env pc = (r, prefs', ev)" by blast
    from redirect_keeps [OF this] show ?thesis using assms(3) by (simp add: pc)
  qed
  have second: "r2 \<noteq> Inr True \<and>
              ((\<forall>q. setPreferences env2 q = None) \<longrightarrow> r2 = Inr False) \<and>
              currentVersionId prefs2 = Some (versionId u) \<and>
              currentBuildId prefs2 = Some (buildId u) \<and>
              availableUpdate prefs2 = None \<and>
              map_of (updates prefs2) (versionId u) = Some u \<and>
              (\<forall>q. SetServerBasePath q \<notin> set evs2)"
    if run2: "isRunningVersion env2 (versionId u) = Inr True"
      and call2: "reloadApp env2 prefs' = (r2, prefs2, evs2)"
    for env2 r2 prefs2 evs2
  proof -
    have "commitReady env2 prefs' = (Inr (), prefs', [])"
      using first by (intro commitReady_not_ready) simp
    from reloadApp_split [OF call2 this]
    have rd: "redirectToCurrent env2 prefs' = (r2, prefs2, evs2)" by auto
    show ?thesis
    proof (cases "versionId u = []")
      case True
      with first have nt: "\<not> (truthy (currentVersionId prefs') \<and>
              isRunningVersion env2 (the (currentVersionId prefs')) = Inr True)"
        by (simp add: truthy_def)
      from rd have "redirectToCurrent env2 prefs' = (r2, prefs2, evs2)" .
      moreover have "redirectToCurrent env2 prefs' = (Inr False, prefs', [FireReady])"
        using True first by (simp add: redirectToCurrent_def truthy_def)
      ultimately have "r2 = Inr False" "prefs2 = prefs'" "evs2 = [FireReady]" by auto
      with first show ?thesis by simp
    next
      case False
      from redirect_running [OF _ False run2 rd] first show ?thesis by simp
    qed
  qed
  from first second show ?thesis by blast
qed

text \<open>
  The theorem at work: v2 is \<open>Ready\<close> and installed next to the current v1. The first
  call commits v2 and redirects; the second, with the webview on v2, returns false.
\<close>

theorem reloadApp_commits_once_witness:
  "availableUpdate prefs_ready_v2 = Some (update_of ''v2'' ''2'' Ready ''2024-02-01T10:00:00.000Z'') \<and>
   map_of (updates prefs_ready_v2) ''v2''
     = Some (update_of ''v2'' ''2'' Ready ''2024-02-01T10:00:00.000Z'') \<and>
   fst (reloadApp env_ok prefs_ready_v2) = Inr True \<and>
   currentVersionId (fst (snd (reloadApp env_ok prefs_ready_v2))) = Some ''v2'' \<and>
   availableUpdate (fst (snd (reloadApp env_ok prefs_ready_v2))) = None \<and>
   isRunningVersion env_serving_v2 ''v2'' = Inr True \<and>
   fst (reloadApp env_serving_v2 (fst (snd (reloadApp env_ok prefs_ready_v2)))) = Inr False"
proof -
  let ?u = "update_of ''v2'' ''2'' Ready ''2024-02-01T10:00:00.000Z''"
  let ?p1 = "fst (snd (reloadApp env_ok prefs_ready_v2))"
  have v: "versionId ?u = ''v2''" by (simp add: update_of_def)
  have 1: "availableUpdate prefs_ready_v2 = Some ?u" by (simp add: prefs_ready_v2_def)
  have 2: "state ?u = Ready" by (simp add: update_of_def)
  have 3: "map_of (updates prefs_ready_v2) (versionId ?u) = Some ?u"
    by (simp add: prefs_ready_v2_def v)
  have 4: "reloadApp env_ok prefs_ready_v2 =
             (fst (reloadApp env_ok prefs_ready_v2), ?p1, snd (snd (reloadApp env_ok prefs_ready_v2)))"
    by simp
  have r1: "fst (reloadApp env_ok prefs_ready_v2) = Inr True" by code_simp
  have run: "isRunningVersion env_serving_v2 (versionId ?u) = Inr True" by code_simp
  have sv: "\<forall>q. setPreferences env_serving_v2 q = None"
    by (simp add: env_serving_v2_def env_ok_def)
  have 5: "reloadApp env_serving_v2 ?p1 =
             (fst (reloadApp env_serving_v2 ?p1), fst (snd (reloadApp env_serving_v2 ?p1)),
              snd (snd (reloadApp env_serving_v2 ?p1)))"
    by simp
  note t = reloadApp_commits_once [OF 1 2 3 4]
  from t have a: "currentVersionId ?p1 = Some ''v2''" "availableUpdate ?p1 = None"
    by (simp_all add: v)
  from t run 5 sv have "fst (reloadApp env_serving_v2 ?p1) = Inr False" by blast
  with 1 3 r1 a run show ?thesis by (simp add: v)
qed

text \<open>
  Claim C4 as stated fails when the record is no longer in \<^verbatim>\<open>updates\<close> (deleted through
  \<^verbatim>\<open>deleteVersionById\<close>, or by the stale pass after a binary upgrade):
  \<^verbatim>\<open>availableUpdate\<close> is \<open>Ready\<close>, \<^verbatim>\<open>reloadApp\<close> commits v2 as current, finds it
  missing and returns false, and \<^verbatim>\<open>updates\<close> has no record of v2.
\<close>

theorem reloadApp_record_deleted_counterexample:
  "availableUpdate prefs_ready_v2_deleted
     = Some (update_of ''v2'' ''2'' Ready ''2024-02-01T10:00:00.000Z'') \<and>
   fst (reloadApp env_ok prefs_ready_v2_deleted) = Inr False \<and>
   currentVersionId (fst (snd (reloadApp env_ok prefs_ready_v2_deleted))) = Some ''v2'' \<and>
   availableUpdate (fst (snd (reloadApp env_ok prefs_ready_v2_deleted))) = None \<and>
   map_of (updates (fst (snd (reloadApp env_ok prefs_ready_v2_deleted)))) ''v2'' = None"
  by code_simp

text \<open>
  Claim C10. \<open>pc\<close> are the preferences after the commit of a \<open>Ready\<close> update
  and \<open>rc\<close> says whether its save succeeded. \<^verbatim>\<open>reloadApp\<close> returns true exactly when
  it calls \<^verbatim>\<open>setServerBasePath\<close>, and exactly when the commit went through,
  \<^verbatim>\<open>currentVersionId\<close> is set (not empty), the webview answers that it does not serve it,
  and it is a key of \<^verbatim>\<open>updates\<close>; the redirect goes to the snapshot directory of that
  version and the ready signal is not fired. Whenever it returns false the ready signal
  was fired and nothing was redirected. It returns a boolean whenever the saves and the
  base path query succeed.
\<close>

theorem reloadApp_true_iff_redirect:
  assumes "reloadApp env prefs = (r, prefs', evs)"
      and "commitReady env prefs = (rc, pc, ec)"
  shows "((r = Inr True) = (\<exists>q. SetServerBasePath q \<in> set evs)) \<and>
         ((r = Inr True) =
            (rc = Inr () \<and> truthy (currentVersionId pc) \<and>
             isRunningVersion env (the (currentVersionId pc)) = Inr False \<and>
             the (currentVersionId pc) \<in> fst ` set (updates pc))) \<and>
         (r = Inr True \<longrightarrow>
            SetServerBasePath (getSnapshotCacheDir env (the (currentVersionId pc))) \<in> set evs \<and>
            FireReady \<notin> set evs) \<and>
         (r = Inr False \<longrightarrow> FireReady \<in> set evs) \<and>
         ((\<forall>q. setPreferences env q = None) \<and> (\<exists>path. getServerBasePath env = Inr path)
            \<longrightarrow> \<not> isl r)"
proof -
  have ec: "\<And>e. e \<in> set ec \<Longrightarrow> \<exists>q. e = SavePrefs q"
    using commitReady_effects [of _ env prefs] assms(2) by simp
  then have ec1: "\<forall>q. SetServerBasePath q \<notin> set ec" and ec2: "FireReady \<notin> set ec"
    by blast+
  from reloadApp_split [OF assms] show ?thesis
  proof
    assume "\<exists>e. rc = Inl e \<and> r = Inl e \<and> prefs' = pc \<and> evs = ec"
    then obtain e where e: "rc = Inl e" "r = Inl e" "evs = ec" by blast
    have "\<not> (\<forall>q. setPreferences env q = None)"
    proof
      assume "\<forall>q. setPreferences env q = None"
      then have "fst (commitReady env prefs) = Inr ()" by (rule commitReady_total)
      with assms(2) e(1) show False by simp
    qed
    with e ec1 show ?thesis by simp
  next
    assume "rc = Inr () \<and> (\<exists>ev. redirectToCurrent env pc = (r, prefs', ev) \<and> evs = ec @ ev)"
    then obtain ev where rc: "rc = Inr ()" and rd: "redirectToCurrent env pc = (r, prefs', ev)"
      and evs: "evs = ec @ ev" by blast
    show ?thesis
    proof (cases "truthy (currentVersionId pc) \<and>
              isRunningVersion env (the (currentVersionId pc)) = Inr True")
      case True
      then obtain v where v: "currentVersionId pc = Some v" "v \<noteq> []"
        by (auto simp: truthy_def split: option.splits)
      with True have run: "isRunningVersion env v = Inr True" by simp
      from redirect_running [OF v run rd] True ec1 ec2 show ?thesis
        unfolding evs by auto
    next
      case False
      from redirect_not_running [OF False rd] rc ec1 ec2 show ?thesis
        unfolding evs by auto
    qed
  qed
qed

text \<open>
  The theorem at work, on the same preferences: with the webview on the bundled
  application the call redirects to v2 and returns true; with the webview on v2 it fires
  the ready signal and returns false.
\<close>

theorem reloadApp_true_iff_redirect_witness:
  "fst (reloadApp env_ok prefs_ready_v2) = Inr True \<and>
   SetServerBasePath ''/data/ionic_built_snapshots/v2'' \<in> set (snd (snd (reloadApp env_ok prefs_ready_v2))) \<and>
   FireReady \<notin> set (snd (snd (reloadApp env_ok prefs_ready_v2))) \<and>
   fst (reloadApp env_serving_v2 prefs_ready_v2) = Inr False \<and>
   FireReady \<in> set (snd (snd (reloadApp env_serving_v2 prefs_ready_v2))) \<and>
   (\<forall>q. SetServerBasePath q \<notin> set (snd (snd (reloadApp env_serving_v2 prefs_ready_v2))))"
proof -
  have a: "reloadApp env_ok prefs_ready_v2 =
      (fst (reloadApp env_ok prefs_ready_v2), fst (snd (reloadApp env_ok prefs_ready_v2)),
       snd (snd (reloadApp env_ok prefs_ready_v2)))" by simp
  have b: "commitReady env_ok prefs_ready_v2 =
      (fst (commitReady env_ok prefs_ready_v2), fst (snd (commitReady env_ok prefs_ready_v2)),
       snd (snd (commitReady env_ok prefs_ready_v2)))" by simp
  have c: "reloadApp env_serving_v2 prefs_ready_v2 =
      (fst (reloadApp env_serving_v2 prefs_ready_v2), fst (snd (reloadApp env_serving_v2 prefs_ready_v2)),
       snd (snd (reloadApp env_serving_v2 prefs_ready_v2)))" by simp
  have d: "commitReady env_serving_v2 prefs_ready_v2 =
      (fst (commitReady env_serving_v2 prefs_ready_v2), fst (snd (commitReady env_serving_v2 prefs_ready_v2)),
       snd (snd (commitReady env_serving_v2 prefs_ready_v2)))" by simp
  have r1: "fst (reloadApp env_ok prefs_ready_v2) = Inr True" by code_simp
  have r2: "fst (reloadApp env_serving_v2 prefs_ready_v2) = Inr False" by code_simp
  have p: "getSnapshotCacheDir env_ok (the (currentVersionId (fst (snd (commitReady env_ok prefs_ready_v2)))))
             = ''/data/ionic_built_snapshots/v2''" by code_simp
  from reloadApp_true_iff_redirect [OF a b] r1 p
  have 1: "SetServerBasePath ''/data/ionic_built_snapshots/v2'' \<in> set (snd (snd (reloadApp env_ok prefs_ready_v2)))
          \<and> FireReady \<notin> set (snd (snd (reloadApp env_ok prefs_ready_v2)))" by simp
  from reloadApp_true_iff_redirect [OF c d] r2
  have 2: "FireReady \<in> set (snd (snd (reloadApp env_serving_v2 prefs_ready_v2))) \<and>
   (\<forall>q. SetServerBasePath q \<notin> set (snd (snd (reloadApp env_serving_v2 prefs_ready_v2))))" by simp
  from 1 2 r1 r2 show ?thesis by blast
qed

section \<open>Claims about diffing and downloading\<close>

text \<open>
  Claim C1, as the code has it. The bundled manifest can be fetched and the snapshot
  directory lists as empty. Then, for every manifest \<open>M\<close>, every size argument and any
  fuel that allows one listing, \<^verbatim>\<open>_diffManifests\<close> with \<open>M\<close> as new manifest and as
  baseline returns nothing to download, \<open>M\<close> as \<^verbatim>\<open>sameManifest\<close>, and
  \<^verbatim>\<open>downloaded = 0\<close>: \<^verbatim>\<open>downloaded\<close> counts only the files found on disk. (The sizes
  of \<^verbatim>\<open>sameManifest\<close> are added later, by \<^verbatim>\<open>_copyCurrentAppDir\<close>, as the files are
  copied.)
\<close>

theorem diffManifests_against_itself:
  assumes "fetch_json env (WEBVIEW_SERVER_URL env @ ''/'' @ MANIFEST_FILE) = Inr manifestResp"
      and "FileManager_getDirectoryFiles env filePath = Inr []"
  shows "map_option fst (diffManifests (Suc n) env M (Some M) filePath totalSize progress)
           = Some \<lparr>diffManifest = [], sameManifest = M, downloaded = 0\<rparr>"
proof -
  have d: "filter (\<lambda>entry. JSON_stringify env entry \<notin> set (map (JSON_stringify env) M)) M = []"
    by (simp add: filter_empty_conv)
  have s: "filter (\<lambda>entry. JSON_stringify env entry \<in> set (map (JSON_stringify env) M)) M = M"
    by (simp add: filter_id_conv)
  show ?thesis
    unfolding diffManifests_def Let_def
    by (simp only: assms(1) walk_empty_directory [OF assms(2)] d s reconcile_no_files
          sum.case option.case prod.case option.map fst_conv)
qed

text \<open>The theorem at work on a manifest of two files.\<close>

theorem diffManifests_against_itself_witness:
  "fetch_json env_ok (WEBVIEW_SERVER_URL env_ok @ ''/'' @ MANIFEST_FILE)
     = Inr \<lparr>fileBaseUrl = ''http://localhost/pro-manifest.json'', manifestJson = []\<rparr> \<and>
   FileManager_getDirectoryFiles env_ok ''/data/ionic_built_snapshots/v2'' = Inr [] \<and>
   map_option fst (diffManifests 1 env_ok manifest_two (Some manifest_two)
                     ''/data/ionic_built_snapshots/v2'' 42 True)
     = Some \<lparr>diffManifest = [], sameManifest = manifest_two, downloaded = 0\<rparr>"
proof -
  have 1: "fetch_json env_ok (WEBVIEW_SERVER_URL env_ok @ ''/'' @ MANIFEST_FILE)
     = Inr \<lparr>fileBaseUrl = ''http://localhost/pro-manifest.json'', manifestJson = []\<rparr>"
    by (simp add: env_ok_def MANIFEST_FILE_def)
  have 2: "FileManager_getDirectoryFiles env_ok ''/data/ionic_built_snapshots/v2'' = Inr []"
    by (simp add: env_ok_def)
  from diffManifests_against_itself [OF 1 2, of 0 manifest_two 42 True] 1 2
  show ?thesis by simp
qed

text \<open>
  Claim C1 as stated fails: the two files of the manifest have 42 bytes together, the
  directory is empty, and \<^verbatim>\<open>downloaded\<close> is 0, not 42.
\<close>

theorem diffManifests_downloaded_zero_counterexample:
  "sum_list (map size manifest_two) = 42 \<and>
   FileManager_getDirectoryFiles env_ok ''/data/ionic_built_snapshots/v2'' = Inr [] \<and>
   map_option (\<lambda>res. downloaded (fst res))
     (diffManifests 1 env_ok manifest_two (Some manifest_two)
        ''/data/ionic_built_snapshots/v2'' 42 False) = Some 0"
  by code_simp

text \<open>
  Claim C5. When the fetch of the bundled manifest fails, or the walk over the snapshot
  directory throws, \<^verbatim>\<open>_diffManifests\<close> returns (no error comes out of it): the whole new
  manifest is to download, \<^verbatim>\<open>sameManifest\<close> is empty and \<^verbatim>\<open>downloaded\<close> is 0,
  whatever the baseline passed in.
\<close>

theorem diffManifests_fallback:
  assumes "(\<exists>e. fetch_json env (WEBVIEW_SERVER_URL env @ ''/'' @ MANIFEST_FILE) = Inl e) \<or>
           (\<exists>e evs. recursiveFilesInPath fuel env filePath [] [] = Some (Inl e, evs))"
  shows "map_option fst (diffManifests fuel env newManifest oldManifest filePath totalSize progress)
           = Some \<lparr>diffManifest = newManifest, sameManifest = [], downloaded = 0\<rparr>"
proof (cases "fetch_json env (WEBVIEW_SERVER_URL env @ ''/'' @ MANIFEST_FILE)")
  case (Inl e)
  then show ?thesis by (simp add: diffManifests_def Let_def)
next
  case (Inr resp)
  with assms obtain e evs where "recursiveFilesInPath fuel env filePath [] [] = Some (Inl e, evs)"
    by auto
  with Inr show ?thesis by (simp add: diffManifests_def Let_def)
qed

text \<open>
  The theorem at work, once with a failing fetch of the bundled manifest and once with a
  failing directory listing.
\<close>

theorem diffManifests_fallback_witness:
  "fetch_json env_no_bundled_manifest (WEBVIEW_SERVER_URL env_no_bundled_manifest @ ''/'' @ MANIFEST_FILE)
     = Inl (Error ''Failed to fetch'') \<and>
   map_option fst (diffManifests 5 env_no_bundled_manifest manifest_two (Some manifest_two)
                     ''/data/ionic_built_snapshots/v2'' 42 True)
     = Some \<lparr>diffManifest = manifest_two, sameManifest = [], downloaded = 0\<rparr> \<and>
   recursiveFilesInPath 5 env_listing_rejects ''/data/ionic_built_snapshots/v2'' [] []
     = Some (Inl (Error ''listing failed''), [GetDirectoryFiles ''/data/ionic_built_snapshots/v2'']) \<and>
   map_option fst (diffManifests 5 env_listing_rejects manifest_two None
                     ''/data/ionic_built_snapshots/v2'' 42 True)
     = Some \<lparr>diffManifest = manifest_two, sameManifest = [], downloaded = 0\<rparr>"
proof -
  have 1: "fetch_json env_no_bundled_manifest
             (WEBVIEW_SERVER_URL env_no_bundled_manifest @ ''/'' @ MANIFEST_FILE)
           = Inl (Error ''Failed to fetch'')"
    by (simp add: env_no_bundled_manifest_def)
  have 2: "recursiveFilesInPath 5 env_listing_rejects ''/data/ionic_built_snapshots/v2'' [] []
     = Some (Inl (Error ''listing failed''), [GetDirectoryFiles ''/data/ionic_built_snapshots/v2''])"
    by code_simp
  have a: "map_option fst (diffManifests 5 env_no_bundled_manifest manifest_two (Some manifest_two)
                     ''/data/ionic_built_snapshots/v2'' 42 True)
     = Some \<lparr>diffManifest = manifest_two, sameManifest = [], downloaded = 0\<rparr>"
    using diffManifests_fallback [of env_no_bundled_manifest] 1 by blast
  have b: "map_option fst (diffManifests 5 env_listing_rejects manifest_two None
                     ''/data/ionic_built_snapshots/v2'' 42 True)
     = Some \<lparr>diffManifest = manifest_two, sameManifest = [], downloaded = 0\<rparr>"
    using diffManifests_fallback [of env_listing_rejects 5 "''/data/ionic_built_snapshots/v2''"] 2
    by blast
  from 1 2 a b show ?thesis by blast
qed

text \<open>
  Claim C8. When \<^verbatim>\<open>availableUpdate\<close> is absent or its state is not \<open>Available\<close>,
  \<^verbatim>\<open>downloadUpdate\<close> returns false, makes no call to the network, the file system or
  the preference store, and leaves the preferences as they are.
\<close>

theorem downloadUpdate_noop:
  assumes "availableUpdate prefs = None \<or>
           (\<exists>u. availableUpdate prefs = Some u \<and> state u \<noteq> Available)"
  shows "downloadUpdate fuel env progress prefs = Some (Inr False, prefs, [])"
  using assms by (auto simp: downloadUpdate_def)

text \<open>The theorem at work on an update that is already \<open>Pending\<close>.\<close>

theorem downloadUpdate_noop_witness:
  "availableUpdate prefs_pending_v2 = Some (update_of ''v2'' ''2'' Pending ''2024-02-01T10:00:00.000Z'') \<and>
   state (update_of ''v2'' ''2'' Pending ''2024-02-01T10:00:00.000Z'') \<noteq> Available \<and>
   downloadUpdate 3 env_manifest_two True prefs_pending_v2 = Some (Inr False, prefs_pending_v2, [])"
proof -
  have 1: "availableUpdate prefs_pending_v2
             = Some (update_of ''v2'' ''2'' Pending ''2024-02-01T10:00:00.000Z'')"
    by (simp add: prefs_pending_v2_def)
  have 2: "state (update_of ''v2'' ''2'' Pending ''2024-02-01T10:00:00.000Z'') \<noteq> Available"
    by (simp add: update_of_def)
  from downloadUpdate_noop [of prefs_pending_v2 3 env_manifest_two True] 1 2
  show ?thesis by blast
qed

text \<open>
  Claim C3. Every transfer of the manifest succeeds. Then \<^verbatim>\<open>_downloadFilesFromManifest\<close>
  returns, and its trace has exactly \<open>\<lceil>N / 20\<rceil>\<close> awaits of \<^verbatim>\<open>Promise.all\<close> for the
  \<open>N\<close> entries, each over at most 20 transfers and together over all \<open>N\<close>; every entry
  is started once, in manifest order; a transfer starts only while fewer than 20 are in
  flight, and each await is for exactly the transfers started since the previous await,
  so a batch has completed before the next one starts.
\<close>

theorem downloadFilesFromManifest_batches:
  assumes "\<forall>f \<in> set manifest.
             FileManager_downloadAndWriteFile env (file_url env baseUrl f) (file_target env vid f) = None"
      and "downloadFilesFromManifest env baseUrl manifest vid acc totalSize progress = (r, evs)"
  shows "r = Inr () \<and>
         length (awaited evs) = (length manifest + 19) div 20 \<and>
         (\<forall>k \<in> set (awaited evs). k \<le> 20) \<and>
         sum_list (awaited evs) = length manifest \<and>
         in_flight_ok 0 evs \<and>
         started evs = map (\<lambda>f. (file_url env baseUrl f, file_target env vid f)) manifest"
proof -
  have ok: "\<forall>f \<in> set manifest \<union> set [].
             FileManager_downloadAndWriteFile env (file_url env baseUrl f) (file_target env vid f) = None"
    using assms(1) by simp
  have z: "length ([] :: ManifestFileEntry list) \<le> maxBatch" by simp
  from download_loop_ok [OF ok z assms(2) [unfolded downloadFilesFromManifest_def]]
  show ?thesis by (simp add: maxBatch_def)
qed

text \<open>The theorem at work: 45 files are fetched in batches of 20, 20 and 5.\<close>

theorem downloadFilesFromManifest_batches_witness:
  "length manifest_45 = 45 \<and>
   map (\<lambda>f. FileManager_downloadAndWriteFile env_ok (file_url env_ok ''https://cdn/v2/'' f)
              (file_target env_ok ''v2'' f)) manifest_45 = replicate 45 None \<and>
   fst (downloadFilesFromManifest env_ok ''https://cdn/v2/'' manifest_45 ''v2'' 0 45 False) = Inr () \<and>
   awaited (snd (downloadFilesFromManifest env_ok ''https://cdn/v2/'' manifest_45 ''v2'' 0 45 False))
     = [20, 20, 5] \<and>
   in_flight_ok 0 (snd (downloadFilesFromManifest env_ok ''https://cdn/v2/'' manifest_45 ''v2'' 0 45 False))"
proof -
  let ?res = "downloadFilesFromManifest env_ok ''https://cdn/v2/'' manifest_45 ''v2'' 0 45 False"
  have 1: "\<forall>f \<in> set manifest_45.
      FileManager_downloadAndWriteFile env_ok (file_url env_ok ''https://cdn/v2/'' f)
        (file_target env_ok ''v2'' f) = None"
    by (simp add: env_ok_def)
  have 2: "?res = (fst ?res, snd ?res)" by simp
  have l: "length manifest_45 = 45" by (simp add: manifest_45_def)
  have a: "awaited (snd ?res) = [20, 20, 5]" by code_simp
  have m: "map (\<lambda>f. FileManager_downloadAndWriteFile env_ok (file_url env_ok ''https://cdn/v2/'' f)
              (file_target env_ok ''v2'' f)) manifest_45 = replicate 45 None"
    using l by (simp add: env_ok_def map_replicate_const)
  from downloadFilesFromManifest_batches [OF 1 2] l a m show ?thesis by simp
qed

text \<open>
  The number of batches that the log lines print is another matter: \<^verbatim>\<open>Math.round\<close>
  rounds 30 / 20 up to 2 and the remainder adds one, so 30 files are announced as 3
  batches and fetched in 2.
\<close>

lemma numberBatches_30: "numberBatches 30 = 3 \<and> (30 + 19) div 20 = (2::nat)"
  by (simp add: numberBatches_def maxBatch_def Let_def)

section \<open>Claim about the state machine\<close>

text \<open>
  Claim C2, as the code has it. In every sequence of calls of \<^verbatim>\<open>downloadUpdate\<close>,
  \<^verbatim>\<open>extractUpdate\<close> and \<^verbatim>\<open>reloadApp\<close>, whatever the environment of each call and
  whether it returns or throws, \<^verbatim>\<open>availableUpdate\<close> stays where it is or moves one step
  forward on the path Available, Pending, Ready, cleared (an absent
  \<^verbatim>\<open>availableUpdate\<close> counts as cleared); it never moves backward. \<^verbatim>\<open>checkForUpdate\<close>
  is different: it either leaves \<^verbatim>\<open>availableUpdate\<close> as it is or replaces it by a
  record in state \<open>Available\<close>, whatever was there.
\<close>

theorem state_advances_without_check:
  "((\<forall>c \<in> set cs. call_op c \<noteq> CheckForUpdate) \<longrightarrow>
      successively (\<lambda>a b. b = a \<or> b = Suc a) (map phase (run_states cs prefs))) \<and>
   (availableUpdate (fst (snd (checkForUpdate env prefs))) = availableUpdate prefs \<or>
    phase (fst (snd (checkForUpdate env prefs))) = 0)"
proof -
  have run: "(\<forall>c \<in> set cs. call_op c \<noteq> CheckForUpdate) \<Longrightarrow>
      successively (\<lambda>a b. b = a \<or> b = Suc a) (map phase (run_states cs prefs))"
  proof (induction cs arbitrary: prefs)
    case Nil
    show ?case by simp
  next
    case (Cons c cs)
    show ?case
    proof (cases "step c prefs")
      case None
      then show ?thesis by simp
    next
      case (Some p')
      from Cons.prems have nc: "call_op c \<noteq> CheckForUpdate" by simp
      note s = step_phase [OF nc Some]
      from Cons.prems have "\<forall>c \<in> set cs. call_op c \<noteq> CheckForUpdate" by simp
      from Cons.IH [OF this, of p'] run_states_hd [of cs p'] s Some
      show ?thesis by (simp add: successively_Cons hd_map)
    qed
  qed
  show ?thesis
  proof (intro conjI impI)
    assume "\<forall>c \<in> set cs. call_op c \<noteq> CheckForUpdate"
    then show "successively (\<lambda>a b. b = a \<or> b = Suc a) (map phase (run_states cs prefs))"
      by (rule run)
  next
    show "availableUpdate (fst (snd (checkForUpdate env prefs))) = availableUpdate prefs \<or>
          phase (fst (snd (checkForUpdate env prefs))) = 0"
      by (rule checkForUpdate_phase)
  qed
qed

text \<open>
  The theorem at work: from an announced v2, download, extract and reload walk through
  the four positions in order.
\<close>

theorem state_advances_without_check_witness:
  "map call_op calls_install = [DownloadUpdate, ExtractUpdate, ReloadApp] \<and>
   map phase (run_states calls_install prefs_available_v2) = [0, 1, 2, 3] \<and>
   successively (\<lambda>a b. b = a \<or> b = Suc a) (map phase (run_states calls_install prefs_available_v2))"
proof -
  have 1: "\<forall>c \<in> set calls_install. call_op c \<noteq> CheckForUpdate"
    by (simp add: calls_install_def)
  have 2: "map phase (run_states calls_install prefs_available_v2) = [0, 1, 2, 3]" by code_simp
  from state_advances_without_check [of calls_install prefs_available_v2 env_ok] 1
  have "successively (\<lambda>a b. b = a \<or> b = Suc a) (map phase (run_states calls_install prefs_available_v2))"
    by blast
  moreover have "map call_op calls_install = [DownloadUpdate, ExtractUpdate, ReloadApp]"
    by (simp add: calls_install_def)
  ultimately show ?thesis using 2 by blast
qed

text \<open>
  Claim C2 as stated fails: v2 is \<open>Pending\<close> (downloaded), the update service
  announces v2 again, and \<^verbatim>\<open>checkForUpdate\<close> puts \<^verbatim>\<open>availableUpdate\<close> for v2 back in
  state \<open>Available\<close>.
\<close>

theorem checkForUpdate_regresses_counterexample:
  "map_option state (availableUpdate prefs_pending_v2) = Some Pending \<and>
   map_option versionId (availableUpdate prefs_pending_v2) = Some ''v2'' \<and>
   map_option state (availableUpdate (fst (snd (checkForUpdate env_update_v2 prefs_pending_v2))))
     = Some Available \<and>
   map_option versionId (availableUpdate (fst (snd (checkForUpdate env_update_v2 prefs_pending_v2))))
     = Some ''v2''"
  by code_simp

end
